theory Spec2Isabelle
  imports Main "HOL-Library.Word" "HOL-Library.Signed_Division"
begin

unbundle bit_operations_syntax

section \<open>C data: bytes, strings and machine integers\<close>

text \<open>
  A byte is an 8-bit word and a buffer is a list of bytes. The C \<^verbatim>\<open>int\<close> and
  \<^verbatim>\<open>long\<close> values of the timing code are integers kept in range by an explicit
  two's-complement wrap (\<open>c_int\<close> for 32 bits, \<open>c_long\<close> for 64 bits) after every
  operation, and C's division, which truncates towards zero, is \<open>sdiv\<close>. The C standard
  leaves signed overflow undefined; the wrap is what the targets of this library compute.
  \<^verbatim>\<open>u_int32_t\<close> is \<open>32 word\<close> and \<^verbatim>\<open>unsigned long\<close> and \<^verbatim>\<open>size_t\<close> are 64 bits wide.
\<close>

type_synonym u8 = "8 word"
type_synonym u32 = "32 word"
type_synonym ulong = "64 word"

definition byte_of_char :: "char \<Rightarrow> u8" where
  "byte_of_char c = of_nat (of_char c)"

definition c_int :: "int \<Rightarrow> int" where
  "c_int x = signed_take_bit 31 x"

definition c_long :: "int \<Rightarrow> int" where
  "c_long x = signed_take_bit 63 x"

text \<open>Conversion between \<^verbatim>\<open>unsigned long\<close> and \<^verbatim>\<open>int\<close>, as at the call and the
  return of \<^verbatim>\<open>adjust_max_per_slice\<close>.\<close>

definition int_of_ulong :: "ulong \<Rightarrow> int" where
  "int_of_ulong w = c_int (uint w)"

definition ulong_of_int :: "int \<Rightarrow> ulong" where
  "ulong_of_int x = word_of_int x"

text \<open>A C string is the list of its bytes before the terminating NUL; reading the
  position of the terminator yields 0.\<close>

definition c_string :: "u8 list \<Rightarrow> u8 list" where
  "c_string s = takeWhile (\<lambda>c. c \<noteq> 0) s"

definition strlen :: "u8 list \<Rightarrow> nat" where
  "strlen s = length (c_string s)"

definition c_at :: "u8 list \<Rightarrow> nat \<Rightarrow> u8" where
  "c_at s i = (if i < length s then s ! i else 0)"

definition isdigit :: "u8 \<Rightarrow> bool" where
  "isdigit c \<longleftrightarrow> byte_of_char CHR ''0'' \<le> c \<and> c \<le> byte_of_char CHR ''9''"

definition isspace :: "u8 \<Rightarrow> bool" where
  "isspace c \<longleftrightarrow> c = 32 \<or> (9 \<le> c \<and> c \<le> 13)"

fun atoi_digits :: "int \<Rightarrow> u8 list \<Rightarrow> int" where
  "atoi_digits acc [] = acc"
| "atoi_digits acc (c # cs) =
     (if isdigit c then atoi_digits (c_int (10 * acc + (uint c - 48))) cs else acc)"

definition atoi :: "u8 list \<Rightarrow> int" where
  "atoi s =
    (case dropWhile isspace s of
       [] \<Rightarrow> 0
     | c # cs \<Rightarrow>
         if c = byte_of_char CHR ''-'' then c_int (- atoi_digits 0 cs)
         else if c = byte_of_char CHR ''+'' then atoi_digits 0 cs
         else atoi_digits 0 (c # cs))"

section \<open>The nonstandard base64 codec\<close>

text \<open>\<^verbatim>\<open>Base64Code\<close>, \<^verbatim>\<open>index_64\<close> and the macro \<^verbatim>\<open>CHAR64\<close>.\<close>

definition Base64Code :: "u8 list" where
  "Base64Code = map byte_of_char
     ''./ABCDEFGHIJKLMNOPQRSTUVWXYZabcdefghijklmnopqrstuvwxyz0123456789''"

definition index_64 :: "u8 list" where
  "index_64 =
    [255, 255, 255, 255, 255, 255, 255, 255, 255, 255] @
    [255, 255, 255, 255, 255, 255, 255, 255, 255, 255] @
    [255, 255, 255, 255, 255, 255, 255, 255, 255, 255] @
    [255, 255, 255, 255, 255, 255, 255, 255, 255, 255] @
    [255, 255, 255, 255, 255, 255, 0, 1, 54, 55] @
    [56, 57, 58, 59, 60, 61, 62, 63, 255, 255] @
    [255, 255, 255, 255, 255, 2, 3, 4, 5, 6] @
    [7, 8, 9, 10, 11, 12, 13, 14, 15, 16] @
    [17, 18, 19, 20, 21, 22, 23, 24, 25, 26, 27] @
    [255, 255, 255, 255, 255, 255, 28, 29, 30] @
    [31, 32, 33, 34, 35, 36, 37, 38, 39, 40] @
    [41, 42, 43, 44, 45, 46, 47, 48, 49, 50] @
    [51, 52, 53, 255, 255, 255, 255, 255]"

definition CHAR64 :: "u8 \<Rightarrow> u8" where
  "CHAR64 c = (if c > 127 then 255 else index_64 ! unat c)"

text \<open>
  \<^verbatim>\<open>decode_base64(buffer, len, b64data)\<close>: \<open>bp\<close> and \<open>p\<close> are the offsets of the two
  pointers; the result is the return code (0 or -1) and the buffer as the call leaves it,
  which on failure holds the bytes decoded so far.
\<close>

function decode_loop :: "u8 list \<Rightarrow> nat \<Rightarrow> u8 list \<Rightarrow> nat \<Rightarrow> nat \<Rightarrow> int \<times> u8 list" where
  "decode_loop buffer len b64data bp p =
    (if bp < len then
       let c1 = CHAR64 (c_at b64data p) in
       if c1 = 255 then (-1, buffer) else
       let c2 = CHAR64 (c_at b64data (p + 1)) in
       if c2 = 255 then (-1, buffer) else
       let buffer = buffer[bp := push_bit 2 c1 OR drop_bit 4 (c2 AND 0x30)];
           bp = bp + 1 in
       if bp \<ge> len then (0, buffer) else
       let c3 = CHAR64 (c_at b64data (p + 2)) in
       if c3 = 255 then (-1, buffer) else
       let buffer = buffer[bp := push_bit 4 (c2 AND 0x0f) OR drop_bit 2 (c3 AND 0x3c)];
           bp = bp + 1 in
       if bp \<ge> len then (0, buffer) else
       let c4 = CHAR64 (c_at b64data (p + 3)) in
       if c4 = 255 then (-1, buffer) else
       let buffer = buffer[bp := push_bit 6 (c3 AND 0x03) OR c4];
           bp = bp + 1 in
       decode_loop buffer len b64data bp (p + 4)
     else (0, buffer))"
  by pat_completeness auto
termination
  by (relation "measure (\<lambda>(buffer, len, b64data, bp, p). len - bp)") auto

declare decode_loop.simps [simp del]

definition decode_base64 :: "u8 list \<Rightarrow> nat \<Rightarrow> u8 list \<Rightarrow> int \<times> u8 list" where
  "decode_base64 buffer len b64data = decode_loop buffer len b64data 0 0"

text \<open>
  \<^verbatim>\<open>encode_base64(b64buffer, data, len)\<close>: the result is the string written to
  \<^verbatim>\<open>b64buffer\<close>, without its terminating NUL. The caller passes \<open>len \<le> length data\<close>.
\<close>

function encode_loop :: "u8 list \<Rightarrow> nat \<Rightarrow> nat \<Rightarrow> u8 list \<Rightarrow> u8 list" where
  "encode_loop data len p out =
    (if p < len then
       let c1 = data ! p; p = p + 1;
           out = out @ [Base64Code ! unat (drop_bit 2 c1)];
           c1 = push_bit 4 (c1 AND 0x03) in
       if p \<ge> len then out @ [Base64Code ! unat c1] else
       let c2 = data ! p; p = p + 1;
           c1 = c1 OR (drop_bit 4 c2 AND 0x0f);
           out = out @ [Base64Code ! unat c1];
           c1 = push_bit 2 (c2 AND 0x0f) in
       if p \<ge> len then out @ [Base64Code ! unat c1] else
       let c2 = data ! p; p = p + 1;
           c1 = c1 OR (drop_bit 6 c2 AND 0x03);
           out = out @ [Base64Code ! unat c1];
           out = out @ [Base64Code ! unat (c2 AND 0x3f)] in
       encode_loop data len p out
     else out)"
  by pat_completeness auto
termination
  by (relation "measure (\<lambda>(data, len, p, out). len - p)") auto

declare encode_loop.simps [simp del]

definition encode_base64 :: "u8 list \<Rightarrow> nat \<Rightarrow> u8 list" where
  "encode_base64 data len = encode_loop data len 0 []"

section \<open>Secure erasure\<close>

text \<open>\<^verbatim>\<open>secure_bzero(buf, len)\<close> writes \<open>len\<close> zero bytes at the start of the buffer.\<close>

fun secure_bzero_loop :: "u8 list \<Rightarrow> nat \<Rightarrow> nat \<Rightarrow> u8 list" where
  "secure_bzero_loop buf ptr 0 = buf"
| "secure_bzero_loop buf ptr (Suc len) = secure_bzero_loop (buf[ptr := 0]) (ptr + 1) len"

definition secure_bzero :: "u8 list \<Rightarrow> nat \<Rightarrow> u8 list" where
  "secure_bzero buf len = (if len = 0 then buf else secure_bzero_loop buf 0 len)"

section \<open>Timing and the adaptive slice size\<close>

record timeval =
  tv_sec :: int
  tv_usec :: int

text \<open>The macro \<^verbatim>\<open>timersub(a, b, result)\<close> of \<^verbatim>\<open>sys/time.h\<close>.\<close>

definition timersub :: "timeval \<Rightarrow> timeval \<Rightarrow> timeval" where
  "timersub a b =
    (let sec = c_long (tv_sec a - tv_sec b);
         usec = c_long (tv_usec a - tv_usec b)
     in if usec < 0 then \<lparr>tv_sec = c_long (sec - 1), tv_usec = c_long (usec + 1000000)\<rparr>
        else \<lparr>tv_sec = sec, tv_usec = usec\<rparr>)"

text \<open>\<^verbatim>\<open>calc_percent(&total, &start, &stop)\<close>: the result is the returned percentage and
  the new value of \<^verbatim>\<open>*total\<close> (written \<open>total'\<close>: \<open>total\<close> is taken in HOL).\<close>

definition calc_percent :: "int \<Rightarrow> timeval \<Rightarrow> timeval \<Rightarrow> int \<times> int" where
  "calc_percent total' start stop =
    (let diff = timersub stop start;
         pct = c_int (c_long (c_long (tv_sec diff * 1000000) + tv_usec diff) sdiv 10);
         total' = c_int (total' + pct)
     in if pct > 100 then (100, total')
        else if pct = 0 then (1, total')
        else (pct, total'))"

text \<open>\<^verbatim>\<open>adjust_max_per_slice(max_per_slice, total, k, start_index)\<close>. The parameter
  \<^verbatim>\<open>max_per_slice\<close> is an \<^verbatim>\<open>int\<close> that the body overwrites with \<^verbatim>\<open>k - start_index\<close>, an
  \<^verbatim>\<open>unsigned long\<close> difference converted to \<^verbatim>\<open>int\<close>; the \<^verbatim>\<open>int\<close> result is converted
  to the \<^verbatim>\<open>unsigned long\<close> return type.\<close>

definition adjust_max_per_slice :: "int \<Rightarrow> int \<Rightarrow> u32 \<Rightarrow> ulong \<Rightarrow> ulong" where
  "adjust_max_per_slice max_per_slice total' k start_index =
    (let m = total' sdiv 100;
         max_per_slice = int_of_ulong (ucast k - start_index)
     in if m = 0 then ulong_of_int max_per_slice
        else if m = 1 then
          ulong_of_int (c_int (max_per_slice - c_int (c_int (max_per_slice * c_int (total' - 100)) sdiv 100)))
        else ulong_of_int (c_int (max_per_slice sdiv m)))"

section \<open>The NIF interface and the cipher collaborator\<close>

text \<open>
  The Erlang terms the three NIFs receive and build, and what a NIF hands back to the
  runtime: \<^verbatim>\<open>enif_make_badarg\<close>, \<^verbatim>\<open>enif_schedule_nif\<close> with the function to run next and
  its argument vector, or \<^verbatim>\<open>enif_make_string\<close>. An outcome also records the contents
  of each binary at the moment \<^verbatim>\<open>enif_release_binary\<close> gives it up, in call order.
\<close>

datatype erl_term = ErlString "u8 list" | ErlBinary "u8 list" | ErlULong ulong | ErlOther

datatype nif_fun = F_bcrypt_expandstate | F_bcrypt_fini

datatype nif_result = Badarg | Schedule nif_fun "erl_term list" | Return_string "u8 list"

record nif_outcome =
  result :: nif_result
  released :: "u8 list list"

text \<open>
  \<^verbatim>\<open>enif_get_string\<close> copies at most \<open>len - 1\<close> characters and a NUL and returns 0 only
  for a term that is not a string (a truncated copy returns a negative count, which the
  callers accept); the result here is the C string the buffer then holds.
  \<^verbatim>\<open>enif_alloc_binary\<close> may fail; the memory it returns is not initialised, so its
  contents are an input.
\<close>

definition enif_get_string :: "erl_term \<Rightarrow> nat \<Rightarrow> u8 list option" where
  "enif_get_string t len =
    (case t of ErlString cs \<Rightarrow> if len = 0 then None else Some (c_string (take (len - 1) cs))
     | _ \<Rightarrow> None)"

definition enif_inspect_binary :: "erl_term \<Rightarrow> u8 list option" where
  "enif_inspect_binary t = (case t of ErlBinary b \<Rightarrow> Some b | _ \<Rightarrow> None)"

definition enif_get_ulong :: "erl_term \<Rightarrow> ulong option" where
  "enif_get_ulong t = (case t of ErlULong n \<Rightarrow> Some n | _ \<Rightarrow> None)"

definition enif_alloc_binary :: "(nat \<Rightarrow> u8) option \<Rightarrow> nat \<Rightarrow> u8 list option" where
  "enif_alloc_binary h len = map_option (\<lambda>g. map g [0..<len]) h"

text \<open>
  The Blowfish primitives of \<^verbatim>\<open>erl_blf.h\<close> are not part of this file of the library;
  they are parameters of the model. A cipher state is the byte contents of the binary
  that holds the \<^verbatim>\<open>blf_ctx\<close>, and each primitive returns the buffer it updates.
\<close>

record blf_ops =
  blf_ctx_size :: nat
  Blowfish_initstate :: "u8 list \<Rightarrow> u8 list"
  Blowfish_expandstate :: "u8 list \<Rightarrow> u8 list \<Rightarrow> nat \<Rightarrow> u8 list \<Rightarrow> nat \<Rightarrow> u8 list"
  Blowfish_expand0state :: "u8 list \<Rightarrow> u8 list \<Rightarrow> nat \<Rightarrow> u8 list"
  blf_enc :: "u8 list \<Rightarrow> u32 list \<Rightarrow> nat \<Rightarrow> u32 list"
  Blowfish_stream2word :: "u8 list \<Rightarrow> nat \<Rightarrow> 16 word \<Rightarrow> u32 \<times> 16 word"

text \<open>The clock and the scheduler as one invocation of \<^verbatim>\<open>bcrypt_expandstate\<close> sees them:
  the \<open>n\<close>-th reading of \<^verbatim>\<open>gettimeofday\<close> and the answer of the \<open>n\<close>-th call of
  \<^verbatim>\<open>enif_consume_timeslice\<close> to the percentage it is given.\<close>

record slice_env =
  gettimeofday :: "nat \<Rightarrow> timeval"
  enif_consume_timeslice :: "nat \<Rightarrow> int \<Rightarrow> bool"

definition BCRYPT_VERSION :: u8 where "BCRYPT_VERSION = byte_of_char CHR ''2''"
definition BCRYPT_MAXSALT :: nat where "BCRYPT_MAXSALT = 16"
definition BCRYPT_WORDS :: nat where "BCRYPT_WORDS = 6"
definition BCRYPT_MINLOGROUNDS :: u8 where "BCRYPT_MINLOGROUNDS = 4"

section \<open>Initialisation: \<^verbatim>\<open>bcrypt\<close>\<close>

definition inval :: nif_outcome where
  "inval = \<lparr>result = Badarg, released = []\<rparr>"

definition inval_release_csalt :: "u8 list \<Rightarrow> nif_outcome" where
  "inval_release_csalt csalt = \<lparr>result = Badarg, released = [csalt]\<rparr>"

text \<open>
  \<open>heap n\<close> answers the \<open>n\<close>-th allocation of the call. The key handed to the cipher is
  the buffer \<^verbatim>\<open>key\<close>, that is the string with its terminator, and \<^verbatim>\<open>key_len\<close>.
\<close>

definition bcrypt :: "blf_ops \<Rightarrow> (nat \<Rightarrow> (nat \<Rightarrow> u8) option) \<Rightarrow> erl_term list \<Rightarrow> nif_outcome" where
  "bcrypt B heap argv =
    (if length argv \<noteq> 2 then inval else
     case enif_get_string (argv ! 0) 1024 of None \<Rightarrow> inval | Some key \<Rightarrow> (
     case enif_get_string (argv ! 1) 1024 of None \<Rightarrow> inval | Some saltbuf \<Rightarrow> (
     if c_at saltbuf 0 \<noteq> byte_of_char CHR ''$'' then inval else
     let salt = drop 1 saltbuf in
     if c_at salt 0 \<noteq> BCRYPT_VERSION then inval else
     let minor = c_at salt 1 in
     if minor \<noteq> byte_of_char CHR ''a'' \<and> minor \<noteq> byte_of_char CHR ''b'' then inval else
     let key_len =
           (if minor = byte_of_char CHR ''a'' then unat (word_of_nat (strlen key + 1) :: u8)
            else min (strlen key) 72 + 1) in
     if c_at salt 2 \<noteq> byte_of_char CHR ''$'' then inval else
     let salt = drop 3 salt in
     if \<not> isdigit (c_at salt 0) \<or> \<not> isdigit (c_at salt 1) \<or>
        c_at salt 2 \<noteq> byte_of_char CHR ''$'' then inval else
     let logr = (word_of_int (atoi salt) :: u8) in
     if logr < BCRYPT_MINLOGROUNDS \<or> logr > 31 then inval else
     let rounds = (push_bit (unat logr) 1 :: u32);
         salt = drop 3 salt in
     if strlen salt * 3 div 4 < BCRYPT_MAXSALT then inval else
     case enif_alloc_binary (heap 0) BCRYPT_MAXSALT of None \<Rightarrow> inval | Some csalt \<Rightarrow> (
     let (rc, csalt) = decode_base64 csalt (length csalt) salt in
     if rc \<noteq> 0 then inval_release_csalt csalt else
     case enif_alloc_binary (heap 1) (blf_ctx_size B) of
       None \<Rightarrow> inval_release_csalt csalt
     | Some state \<Rightarrow> (
     let state = Blowfish_initstate B state;
         state = Blowfish_expandstate B state csalt (length csalt) (key @ [0]) key_len in
     \<lparr>result = Schedule F_bcrypt_expandstate
        [ErlBinary state, ErlBinary csalt, argv ! 0, ErlULong (word_of_nat key_len),
         ErlULong (ucast rounds), ErlULong (ucast minor), ErlULong (ucast logr),
         ErlULong 25, ErlULong 0],
      released = []\<rparr>)))))"

section \<open>The interruptible key schedule: \<^verbatim>\<open>bcrypt_expandstate\<close>\<close>

text \<open>The inner \<^verbatim>\<open>do { ... } while (++k < end)\<close>: the body runs before the test, and the
  comparison is made in \<^verbatim>\<open>unsigned long\<close>.\<close>

partial_function (option) expand_do_while ::
  "blf_ops \<Rightarrow> u8 list \<Rightarrow> u8 list \<Rightarrow> nat \<Rightarrow> u8 list \<Rightarrow> u32 \<Rightarrow> ulong \<Rightarrow> (u8 list \<times> u32) option"
where
  "expand_do_while B state key key_len csalt k end' =
    (let state = Blowfish_expand0state B state key key_len;
         state = Blowfish_expand0state B state csalt (length csalt);
         k = k + 1
     in if ucast k < end' then expand_do_while B state key key_len csalt k end'
        else Some (state, k))"

text \<open>
  The outer \<^verbatim>\<open>while (1)\<close>. \<open>j\<close> counts the slices this invocation has completed, so
  the slice reads the clock at \<open>2 * j\<close> and \<open>2 * j + 1\<close> and makes the \<open>j\<close>-th call of
  \<^verbatim>\<open>enif_consume_timeslice\<close>. Leaving the loop by \<^verbatim>\<open>break\<close> schedules \<^verbatim>\<open>bcrypt_fini\<close>.
\<close>

partial_function (option) expand_slices ::
  "blf_ops \<Rightarrow> slice_env \<Rightarrow> erl_term list \<Rightarrow> u8 list \<Rightarrow> nat \<Rightarrow> u8 list \<Rightarrow> u32 \<Rightarrow> ulong \<Rightarrow> ulong \<Rightarrow>
   u8 list \<Rightarrow> int \<Rightarrow> u32 \<Rightarrow> ulong \<Rightarrow> nat \<Rightarrow> nif_outcome option"
where
  "expand_slices B env argv key key_len csalt rounds max_per_slice start_index
     state total' k end' j =
    (let start = gettimeofday env (2 * j) in
     case expand_do_while B state key key_len csalt k end' of
       None \<Rightarrow> None
     | Some (state, k) \<Rightarrow>
     if k = rounds then
       Some \<lparr>result = Schedule F_bcrypt_fini
               [ErlBinary state, ErlBinary csalt, argv ! 5, argv ! 6],
             released = []\<rparr>
     else
     let stop = gettimeofday env (2 * j + 1);
         (pct, total') = calc_percent total' start stop in
     if enif_consume_timeslice env j pct then
       let max_per_slice =
             adjust_max_per_slice (int_of_ulong max_per_slice) total' k start_index in
       Some \<lparr>result = Schedule F_bcrypt_expandstate
               [ErlBinary state, ErlBinary csalt, argv ! 2, argv ! 3, argv ! 4, argv ! 5,
                argv ! 6, ErlULong max_per_slice, ErlULong (ucast k)],
             released = []\<rparr>
     else
     let end' = end' + max_per_slice;
         end' = (if end' > ucast rounds then ucast rounds else end')
     in expand_slices B env argv key key_len csalt rounds max_per_slice start_index
          state total' k end' (j + 1))"

definition bcrypt_expandstate :: "blf_ops \<Rightarrow> slice_env \<Rightarrow> erl_term list \<Rightarrow> nif_outcome option" where
  "bcrypt_expandstate B env argv =
    (if length argv \<noteq> 9 then Some inval else
     case enif_inspect_binary (argv ! 0) of None \<Rightarrow> Some inval | Some state \<Rightarrow> (
     case enif_inspect_binary (argv ! 1) of
       None \<Rightarrow> Some \<lparr>result = Badarg, released = [state]\<rparr>
     | Some csalt \<Rightarrow> (
     let bad = Some \<lparr>result = Badarg, released = [state, csalt]\<rparr> in
     case enif_get_string (argv ! 2) 1024 of None \<Rightarrow> bad | Some key \<Rightarrow> (
     case enif_get_ulong (argv ! 3) of None \<Rightarrow> bad | Some key_len_arg \<Rightarrow> (
     case enif_get_ulong (argv ! 4) of None \<Rightarrow> bad | Some rounds_arg \<Rightarrow> (
     case enif_get_ulong (argv ! 5) of None \<Rightarrow> bad | Some minor_arg \<Rightarrow> (
     case enif_get_ulong (argv ! 6) of None \<Rightarrow> bad | Some logr_arg \<Rightarrow> (
     case enif_get_ulong (argv ! 7) of None \<Rightarrow> bad | Some max_per_slice \<Rightarrow> (
     case enif_get_ulong (argv ! 8) of None \<Rightarrow> bad | Some start_index \<Rightarrow> (
     let key_len = unat key_len_arg;
         rounds = (ucast rounds_arg :: u32);
         end' = start_index + max_per_slice;
         end' = (if end' > ucast rounds then ucast rounds else end');
         k = (ucast start_index :: u32)
     in expand_slices B env argv (key @ [0]) key_len csalt rounds max_per_slice start_index
          state 0 k end' 0))))))))))"

section \<open>Finalisation: \<^verbatim>\<open>bcrypt_fini\<close>\<close>

text \<open>The first loop fills \<^verbatim>\<open>cdata\<close> from the ciphertext with the cursor \<^verbatim>\<open>j\<close>; the
  third writes each word back, low byte first.\<close>

fun load_cdata :: "blf_ops \<Rightarrow> u8 list \<Rightarrow> nat \<Rightarrow> 16 word \<Rightarrow> u32 list" where
  "load_cdata B ciphertext 0 j = []"
| "load_cdata B ciphertext (Suc n) j =
     (let (w, j) = Blowfish_stream2word B ciphertext (4 * BCRYPT_WORDS) j
      in w # load_cdata B ciphertext n j)"

definition store_word :: "u32 \<Rightarrow> u8 list" where
  "store_word w =
    (let b3 = (ucast (w AND 0xff) :: u8); w = drop_bit 8 w;
         b2 = (ucast (w AND 0xff) :: u8); w = drop_bit 8 w;
         b1 = (ucast (w AND 0xff) :: u8); w = drop_bit 8 w;
         b0 = (ucast (w AND 0xff) :: u8)
     in [b0, b1, b2, b3])"

text \<open>\<^verbatim>\<open>snprintf(encrypted, 8, "$2%c$%2.2u$", minor, logr)\<close>: at most seven characters
  of the formatted text are written.\<close>

fun decimal :: "nat \<Rightarrow> u8 list" where
  "decimal n =
    (if n < 10 then [byte_of_char CHR ''0'' + word_of_nat n]
     else decimal (n div 10) @ [byte_of_char CHR ''0'' + word_of_nat (n mod 10)])"

declare decimal.simps [simp del]

definition snprintf_id :: "nat \<Rightarrow> u8 \<Rightarrow> u8 \<Rightarrow> u8 list" where
  "snprintf_id len minor logr =
    take (len - 1)
      (map byte_of_char ''$2'' @ [minor] @ map byte_of_char ''$'' @
       (if unat logr < 10 then byte_of_char CHR ''0'' # decimal (unat logr)
        else decimal (unat logr)) @
       map byte_of_char ''$'')"

text \<open>The local arrays \<^verbatim>\<open>ciphertext\<close> and \<^verbatim>\<open>cdata\<close> are erased as well before the
  return; they are not binaries and the result does not depend on them afterwards.\<close>

definition bcrypt_fini :: "blf_ops \<Rightarrow> erl_term list \<Rightarrow> nif_outcome" where
  "bcrypt_fini B argv =
    (if length argv \<noteq> 4 then inval else
     case enif_inspect_binary (argv ! 0) of None \<Rightarrow> inval | Some state \<Rightarrow> (
     case enif_inspect_binary (argv ! 1) of
       None \<Rightarrow> \<lparr>result = Badarg, released = [state]\<rparr>
     | Some csalt \<Rightarrow> (
     let bad = \<lparr>result = Badarg, released = [state, csalt]\<rparr> in
     case enif_get_ulong (argv ! 2) of None \<Rightarrow> bad | Some minor_arg \<Rightarrow> (
     case enif_get_ulong (argv ! 3) of None \<Rightarrow> bad | Some logr_arg \<Rightarrow> (
     let minor = (ucast minor_arg :: u8);
         logr = (ucast logr_arg :: u8);
         ciphertext = map byte_of_char ''OrpheanBeholderScryDoubt'';
         cdata = load_cdata B ciphertext BCRYPT_WORDS 0;
         cdata = ((\<lambda>cdata. blf_enc B state cdata (BCRYPT_WORDS div 2)) ^^ 64) cdata;
         ciphertext = concat (map store_word cdata);
         encrypted = snprintf_id 8 minor logr @
                     encode_base64 csalt BCRYPT_MAXSALT @
                     encode_base64 ciphertext (4 * BCRYPT_WORDS - 1);
         state = secure_bzero state (length state);
         csalt = secure_bzero csalt (length csalt)
     in \<lparr>result = Return_string (c_string encrypted), released = [state, csalt]\<rparr>)))))"

section \<open>The runtime that runs scheduled NIFs\<close>

text \<open>
  \<^verbatim>\<open>enif_schedule_nif\<close> makes the runtime call the named function with the vector it was
  given. \<open>sched n\<close> is the clock and scheduler of the \<open>n\<close>-th call of
  \<^verbatim>\<open>bcrypt_expandstate\<close>. \<open>tune n m\<close> is the \<^verbatim>\<open>max_per_slice\<close> that call receives when \<open>m\<close>
  was scheduled: the Erlang runtime passes the vector on unchanged (\<open>tune n m = m\<close>), a
  harness that drives slices of sizes of its own choice uses another function. The result
  lists the outcome of every call, the last one being the value returned to the caller.
\<close>

definition retune :: "(ulong \<Rightarrow> ulong) \<Rightarrow> erl_term list \<Rightarrow> erl_term list" where
  "retune f argv =
    (if 7 < length argv then
       argv[7 := (case argv ! 7 of ErlULong m \<Rightarrow> ErlULong (f m) | t \<Rightarrow> t)]
     else argv)"

partial_function (option) run_nif ::
  "blf_ops \<Rightarrow> (nat \<Rightarrow> slice_env) \<Rightarrow> (nat \<Rightarrow> ulong \<Rightarrow> ulong) \<Rightarrow> nat \<Rightarrow> nif_outcome \<Rightarrow>
   nif_outcome list option"
where
  "run_nif B sched tune n r =
    (case result r of
       Schedule f argv \<Rightarrow>
         (case f of
            F_bcrypt_expandstate \<Rightarrow>
              (case bcrypt_expandstate B (sched n) (retune (tune n) argv) of
                 None \<Rightarrow> None
               | Some r' \<Rightarrow>
                   Option.bind (run_nif B sched tune (Suc n) r') (\<lambda>rs. Some (r # rs)))
          | F_bcrypt_fini \<Rightarrow>
              Option.bind (run_nif B sched tune n (bcrypt_fini B argv)) (\<lambda>rs. Some (r # rs)))
     | _ \<Rightarrow> Some [r])"

text \<open>A call of the exported NIF, run to its end.\<close>

definition bcrypt_nif ::
  "blf_ops \<Rightarrow> (nat \<Rightarrow> (nat \<Rightarrow> u8) option) \<Rightarrow> (nat \<Rightarrow> slice_env) \<Rightarrow> (nat \<Rightarrow> ulong \<Rightarrow> ulong) \<Rightarrow>
   erl_term list \<Rightarrow> nif_outcome list option" where
  "bcrypt_nif B heap sched tune argv = run_nif B sched tune 0 (bcrypt B heap argv)"

section \<open>The unsliced loop\<close>

text \<open>
  The loop the header comment of \<^verbatim>\<open>bcrypt_expandstate\<close> gives as the original:
  \<^verbatim>\<open>for (k = 0; k < rounds; k++)\<close> around the two calls of \<^verbatim>\<open>Blowfish_expand0state\<close>,
  first with the key, then with the salt.
\<close>

definition expand_round :: "blf_ops \<Rightarrow> u8 list \<Rightarrow> nat \<Rightarrow> u8 list \<Rightarrow> u8 list \<Rightarrow> u8 list" where
  "expand_round B key key_len csalt state =
    Blowfish_expand0state B (Blowfish_expand0state B state key key_len) csalt (length csalt)"

definition naive_expand :: "blf_ops \<Rightarrow> u8 list \<Rightarrow> nat \<Rightarrow> u8 list \<Rightarrow> nat \<Rightarrow> u8 list \<Rightarrow> u8 list" where
  "naive_expand B key key_len csalt rounds state =
    (expand_round B key key_len csalt ^^ rounds) state"

section \<open>Reading outcomes, and a stand-in cipher\<close>

text \<open>The argument vector an outcome schedules, and its entries as numbers.\<close>

definition scheduled_argv :: "nif_outcome \<Rightarrow> erl_term list" where
  "scheduled_argv r = (case result r of Schedule f argv \<Rightarrow> argv | _ \<Rightarrow> [])"

definition ulong_arg :: "erl_term list \<Rightarrow> nat \<Rightarrow> nat" where
  "ulong_arg argv i = (case argv ! i of ErlULong n \<Rightarrow> unat n | _ \<Rightarrow> 0)"

text \<open>
  The argument vectors the engine passes on, written out once: the nine arguments of
  \<^verbatim>\<open>bcrypt_expandstate\<close> and the four of \<^verbatim>\<open>bcrypt_fini\<close>; the contents of the buffer
  \<^verbatim>\<open>key\<close> that \<^verbatim>\<open>enif_get_string\<close> fills from a password; and the \<^verbatim>\<open>start_index\<close> values
  of the calls of \<^verbatim>\<open>bcrypt_expandstate\<close> that the outcomes of a run schedule.
\<close>

definition expand_argv ::
  "u8 list \<Rightarrow> u8 list \<Rightarrow> u8 list \<Rightarrow> ulong \<Rightarrow> ulong \<Rightarrow> ulong \<Rightarrow> ulong \<Rightarrow> ulong \<Rightarrow> ulong \<Rightarrow> erl_term list"
where
  "expand_argv state csalt password key_len rounds minor logr max_per_slice start_index =
    [ErlBinary state, ErlBinary csalt, ErlString password, ErlULong key_len, ErlULong rounds,
     ErlULong minor, ErlULong logr, ErlULong max_per_slice, ErlULong start_index]"

definition fini_argv :: "u8 list \<Rightarrow> u8 list \<Rightarrow> ulong \<Rightarrow> ulong \<Rightarrow> erl_term list" where
  "fini_argv state csalt minor logr =
    [ErlBinary state, ErlBinary csalt, ErlULong minor, ErlULong logr]"

definition key_buffer :: "u8 list \<Rightarrow> u8 list" where
  "key_buffer password = c_string (take 1023 password) @ [0]"

definition start_index_of :: "nif_outcome \<Rightarrow> nat option" where
  "start_index_of r =
    (case result r of
       Schedule f argv \<Rightarrow>
         (case f of F_bcrypt_expandstate \<Rightarrow> Some (ulong_arg argv 8) | F_bcrypt_fini \<Rightarrow> None)
     | _ \<Rightarrow> None)"

definition start_indices :: "nif_outcome list \<Rightarrow> nat list" where
  "start_indices rs = List.map_filter start_index_of rs"

text \<open>
  The hash of the unsliced computation: the original loop run \<open>rounds\<close> times on a
  state, followed by \<^verbatim>\<open>bcrypt_fini\<close>.
\<close>

definition naive_bcrypt ::
  "blf_ops \<Rightarrow> u8 list \<Rightarrow> u8 list \<Rightarrow> u8 list \<Rightarrow> ulong \<Rightarrow> ulong \<Rightarrow> ulong \<Rightarrow> ulong \<Rightarrow> nif_outcome"
where
  "naive_bcrypt B state csalt password key_len rounds minor logr =
    bcrypt_fini B
      (fini_argv
         (naive_expand B (key_buffer password) (unat key_len) csalt
            (unat (ucast rounds :: u32)) state)
         csalt minor logr)"

text \<open>
  What it means that the index counts rounds, for an outcome of a run that started at
  index \<open>s0\<close> with the cipher state \<open>state\<close>: a scheduled call of \<^verbatim>\<open>bcrypt_expandstate\<close>
  carries an index from \<open>s0\<close> up to \<open>rounds\<close> (excluded), the state after that many rounds
  less \<open>s0\<close>, and the other arguments unchanged; a scheduled call of \<^verbatim>\<open>bcrypt_fini\<close>
  carries the state after all the rounds. \<open>rounds\<close> is read as the engine reads it, as a
  \<^verbatim>\<open>u_int32_t\<close>.
\<close>

definition index_counts_rounds ::
  "blf_ops \<Rightarrow> u8 list \<Rightarrow> u8 list \<Rightarrow> ulong \<Rightarrow> ulong \<Rightarrow> ulong \<Rightarrow> ulong \<Rightarrow> nat \<Rightarrow> u8 list \<Rightarrow>
   nif_outcome \<Rightarrow> bool"
where
  "index_counts_rounds B csalt password key_len rounds minor logr s0 state r =
    (case result r of
       Schedule f argv \<Rightarrow>
         (case f of
            F_bcrypt_expandstate \<Rightarrow>
              s0 \<le> ulong_arg argv 8 \<and> ulong_arg argv 8 < unat (ucast rounds :: u32) \<and>
              argv = expand_argv
                (naive_expand B (key_buffer password) (unat key_len) csalt
                   (ulong_arg argv 8 - s0) state)
                csalt password key_len rounds minor logr
                (word_of_nat (ulong_arg argv 7)) (word_of_nat (ulong_arg argv 8))
          | F_bcrypt_fini \<Rightarrow>
              argv = fini_argv
                (naive_expand B (key_buffer password) (unat key_len) csalt
                   (unat (ucast rounds :: u32) - s0) state)
                csalt minor logr)
     | _ \<Rightarrow> True)"

text \<open>
  A run of the engine, outcome by outcome: scheduled calls of \<^verbatim>\<open>bcrypt_expandstate\<close>, each
  with an index below \<open>rounds\<close>, the state after exactly that many rounds and the other
  arguments unchanged; then the scheduled call of \<^verbatim>\<open>bcrypt_fini\<close>, with the state after
  exactly \<open>rounds\<close> rounds; then what \<^verbatim>\<open>bcrypt_fini\<close> returns for these arguments. A list
  that holds anything else (badarg among it), or that stops earlier, is not such a run.
  \<open>finalizing\<close> tells the outcome that schedules \<^verbatim>\<open>bcrypt_fini\<close>.
\<close>

definition finalizing :: "nif_outcome \<Rightarrow> bool" where
  "finalizing r = (case result r of Schedule f argv \<Rightarrow> f = F_bcrypt_fini | _ \<Rightarrow> False)"

fun run_counts_rounds ::
  "blf_ops \<Rightarrow> u8 list \<Rightarrow> u8 list \<Rightarrow> ulong \<Rightarrow> ulong \<Rightarrow> ulong \<Rightarrow> ulong \<Rightarrow> u8 list \<Rightarrow>
   nif_outcome list \<Rightarrow> bool"
where
  "run_counts_rounds B csalt password key_len rounds minor logr state [] = False"
| "run_counts_rounds B csalt password key_len rounds minor logr state (r # rs) =
    (case result r of
       Schedule f argv \<Rightarrow>
         (case f of
            F_bcrypt_expandstate \<Rightarrow>
              ulong_arg argv 8 < unat (ucast rounds :: u32) \<and>
              argv = expand_argv
                (naive_expand B (key_buffer password) (unat key_len) csalt
                   (ulong_arg argv 8) state)
                csalt password key_len rounds minor logr
                (word_of_nat (ulong_arg argv 7)) (word_of_nat (ulong_arg argv 8)) \<and>
              run_counts_rounds B csalt password key_len rounds minor logr state rs
          | F_bcrypt_fini \<Rightarrow>
              argv = fini_argv
                (naive_expand B (key_buffer password) (unat key_len) csalt
                   (unat (ucast rounds :: u32)) state)
                csalt minor logr \<and>
              rs = [bcrypt_fini B argv])
     | _ \<Rightarrow> False)"

text \<open>
  The index inside one invocation. \<open>slice_indices\<close> follows the \<^verbatim>\<open>while (1)\<close> of
  \<^verbatim>\<open>bcrypt_expandstate\<close> with the same clock readings and the same calls of
  \<^verbatim>\<open>enif_consume_timeslice\<close>, and lists the values \<^verbatim>\<open>k\<close> has at the test
  \<^verbatim>\<open>k == rounds\<close>, one for each slice the invocation completes; the last one is the
  index with which the invocation leaves the loop, by \<^verbatim>\<open>break\<close> or by scheduling itself
  again. \<open>expandstate_indices\<close> reads the arguments as \<^verbatim>\<open>bcrypt_expandstate\<close> does and
  enters the loop with the same \<^verbatim>\<open>k\<close> and \<^verbatim>\<open>end\<close>; an invocation that rejects its
  arguments does not enter the loop.
\<close>

partial_function (option) slice_indices ::
  "blf_ops \<Rightarrow> slice_env \<Rightarrow> u8 list \<Rightarrow> nat \<Rightarrow> u8 list \<Rightarrow> u32 \<Rightarrow> ulong \<Rightarrow>
   u8 list \<Rightarrow> int \<Rightarrow> u32 \<Rightarrow> ulong \<Rightarrow> nat \<Rightarrow> u32 list option"
where
  "slice_indices B env key key_len csalt rounds max_per_slice state total' k end' j =
    (let start = gettimeofday env (2 * j) in
     case expand_do_while B state key key_len csalt k end' of
       None \<Rightarrow> None
     | Some (state, k) \<Rightarrow>
     if k = rounds then Some [k]
     else
     let stop = gettimeofday env (2 * j + 1);
         (pct, total') = calc_percent total' start stop in
     if enif_consume_timeslice env j pct then Some [k]
     else
     let end' = end' + max_per_slice;
         end' = (if end' > ucast rounds then ucast rounds else end')
     in Option.bind
          (slice_indices B env key key_len csalt rounds max_per_slice state total' k end' (j + 1))
          (\<lambda>ks. Some (k # ks)))"

definition expandstate_indices :: "blf_ops \<Rightarrow> slice_env \<Rightarrow> erl_term list \<Rightarrow> u32 list option" where
  "expandstate_indices B env argv =
    (if length argv \<noteq> 9 then Some [] else
     case enif_inspect_binary (argv ! 0) of None \<Rightarrow> Some [] | Some state \<Rightarrow> (
     case enif_inspect_binary (argv ! 1) of None \<Rightarrow> Some [] | Some csalt \<Rightarrow> (
     case enif_get_string (argv ! 2) 1024 of None \<Rightarrow> Some [] | Some key \<Rightarrow> (
     case enif_get_ulong (argv ! 3) of None \<Rightarrow> Some [] | Some key_len_arg \<Rightarrow> (
     case enif_get_ulong (argv ! 4) of None \<Rightarrow> Some [] | Some rounds_arg \<Rightarrow> (
     case enif_get_ulong (argv ! 5) of None \<Rightarrow> Some [] | Some minor_arg \<Rightarrow> (
     case enif_get_ulong (argv ! 6) of None \<Rightarrow> Some [] | Some logr_arg \<Rightarrow> (
     case enif_get_ulong (argv ! 7) of None \<Rightarrow> Some [] | Some max_per_slice \<Rightarrow> (
     case enif_get_ulong (argv ! 8) of None \<Rightarrow> Some [] | Some start_index \<Rightarrow> (
     let key_len = unat key_len_arg;
         rounds = (ucast rounds_arg :: u32);
         end' = start_index + max_per_slice;
         end' = (if end' > ucast rounds then ucast rounds else end');
         k = (ucast start_index :: u32)
     in slice_indices B env (key @ [0]) key_len csalt rounds max_per_slice state 0 k end' 0))))))))))"

text \<open>
  The theorems below hold for every cipher collaborator. To evaluate the NIFs at concrete
  inputs a small stand-in is enough: a four-byte state that each expansion multiplies by
  5 and shifts by the bytes it is given, the big-endian cursor read of the cipher for
  \<^verbatim>\<open>Blowfish_stream2word\<close>, and an allocator that returns zeroed memory.
\<close>

fun demo_stream2word :: "u8 list \<Rightarrow> nat \<Rightarrow> 16 word \<Rightarrow> nat \<Rightarrow> u32 \<Rightarrow> u32 \<times> 16 word" where
  "demo_stream2word data databytes j 0 temp = (temp, j)"
| "demo_stream2word data databytes j (Suc i) temp =
     (let j = (if unat j \<ge> databytes then 0 else j)
      in demo_stream2word data databytes (j + 1) i (push_bit 8 temp OR ucast (c_at data (unat j))))"

definition demo_mix :: "u8 list \<Rightarrow> u8 list \<Rightarrow> nat \<Rightarrow> u8 list" where
  "demo_mix ctx data n = map (\<lambda>b. 5 * b + fold (+) (take n data) 1) ctx"

definition demo_blf :: blf_ops where
  "demo_blf =
    \<lparr>blf_ctx_size = 4,
     Blowfish_initstate = (\<lambda>ctx. map (\<lambda>b. 7) ctx),
     Blowfish_expandstate = (\<lambda>ctx data n key m. demo_mix (demo_mix ctx data n) key m),
     Blowfish_expand0state = demo_mix,
     blf_enc = (\<lambda>ctx cdata n. map (\<lambda>w. 3 * w + ucast (fold (+) ctx 0)) cdata),
     Blowfish_stream2word = (\<lambda>data databytes j. demo_stream2word data databytes j 4 0)\<rparr>"

definition demo_heap :: "nat \<Rightarrow> (nat \<Rightarrow> u8) option" where
  "demo_heap n = Some (\<lambda>i. 0)"

text \<open>A clock that advances by 100 microseconds per reading, with a scheduler that
  always or never asks the NIF to yield.\<close>

definition demo_sched :: "bool \<Rightarrow> slice_env" where
  "demo_sched yield =
    \<lparr>gettimeofday = (\<lambda>i. \<lparr>tv_sec = 0, tv_usec = 100 * int i\<rparr>),
     enif_consume_timeslice = (\<lambda>j pct. yield)\<rparr>"

text \<open>The outcome that schedules the first call of \<^verbatim>\<open>bcrypt_expandstate\<close> for the
  password \<open>abc\<close>, an all-zero salt, minor \<open>b\<close> and 16 rounds, with a chosen
  \<^verbatim>\<open>max_per_slice\<close>.\<close>

definition demo_start :: "ulong \<Rightarrow> nif_outcome" where
  "demo_start m =
    \<lparr>result = Schedule F_bcrypt_expandstate
       (expand_argv [1, 2, 3, 4] (replicate 16 0) (map byte_of_char ''abc'') 4 16
          (ucast (byte_of_char CHR ''b'')) 4 m 0),
     released = []\<rparr>"

section \<open>Properties of the timing code\<close>

lemma c_int_id: "- (2 ^ 31) \<le> x \<Longrightarrow> x < 2 ^ 31 \<Longrightarrow> c_int x = x"
  unfolding c_int_def by (simp add: signed_take_bit_int_eq_self)

lemma c_long_id: "- (2 ^ 63) \<le> x \<Longrightarrow> x < 2 ^ 63 \<Longrightarrow> c_long x = x"
  unfolding c_long_def by (simp add: signed_take_bit_int_eq_self)

lemma uint_ulong_of_int: "0 \<le> x \<Longrightarrow> x < 2 ^ 64 \<Longrightarrow> uint (ulong_of_int x) = x"
  unfolding ulong_of_int_def by (simp add: uint_word_of_int take_bit_int_eq_self)

lemma sdiv_nonneg: "0 \<le> a \<Longrightarrow> 0 < b \<Longrightarrow> a sdiv b = a div (b::int)"
  by (simp add: signed_divide_int_def sgn_if)

lemma sdiv_100_nonneg: "0 \<le> a \<Longrightarrow> a sdiv 100 = a div (100::int)"
  by (rule sdiv_nonneg) simp_all

lemma completed_eq:
  fixes k :: u32 and start_index :: ulong
  assumes "start_index \<le> ucast k"
  shows "uint (ucast k - start_index) = uint k - uint start_index"
  using assms by (simp add: uint_minus_simple_alt uint_up_ucast is_up)

lemma completed_int:
  fixes k :: u32 and start_index :: ulong
  assumes "start_index \<le> ucast k" and "uint k - uint start_index < 2 ^ 31"
  shows "int_of_ulong (ucast k - start_index) = uint k - uint start_index"
proof -
  have "0 \<le> uint k - uint start_index"
    using assms(1) by (simp add: word_le_def uint_up_ucast is_up)
  then show ?thesis
    unfolding int_of_ulong_def using assms by (simp add: completed_eq c_int_id)
qed


lemma adjust_max_per_slice_cases:
  fixes k :: u32 and start_index :: ulong
  assumes "start_index \<le> ucast k"
    and "uint k - uint start_index < 2 ^ 31"
    and "- (2 ^ 31) \<le> total'" and "total' < 2 ^ 31"
  shows "(total' sdiv 100 = 0 \<longrightarrow>
            uint (adjust_max_per_slice max_per_slice total' k start_index)
              = uint k - uint start_index) \<and>
         (total' sdiv 100 = 1 \<and> (uint k - uint start_index) * (total' - 100) < 2 ^ 31 \<longrightarrow>
            uint (adjust_max_per_slice max_per_slice total' k start_index)
              = (uint k - uint start_index)
                - (uint k - uint start_index) * (total' - 100) div 100) \<and>
         (2 \<le> total' sdiv 100 \<longrightarrow>
            uint (adjust_max_per_slice max_per_slice total' k start_index)
              = (uint k - uint start_index) div (total' sdiv 100))"
proof -
  define c where "c = uint k - uint start_index"
  have c0: "0 \<le> c" using assms(1) by (simp add: c_def word_le_def uint_up_ucast is_up)
  have c1: "c < 2 ^ 31" using assms(2) by (simp add: c_def)
  have ci: "int_of_ulong (ucast k - start_index) = c"
    unfolding c_def using assms(1,2) by (rule completed_int)
  have A: "total' sdiv 100 = 0 \<Longrightarrow> uint (adjust_max_per_slice max_per_slice total' k start_index) = c"
    using c0 c1 by (simp add: adjust_max_per_slice_def Let_def ci uint_ulong_of_int)
  have B: "uint (adjust_max_per_slice max_per_slice total' k start_index) = c - c * (total' - 100) div 100"
    if m1: "total' sdiv 100 = 1" and no: "c * (total' - 100) < 2 ^ 31"
  proof -
    have t: "100 \<le> total'" "total' < 200"
      using m1 by (auto simp: signed_divide_int_def sgn_if split: if_splits)
    have p0: "0 \<le> c * (total' - 100)" using c0 t by simp
    have q: "c * (total' - 100) div 100 \<le> c"
    proof -
      have "c * (total' - 100) \<le> c * 100" using c0 t by (intro mult_left_mono) auto
      then have "c * (total' - 100) div 100 \<le> c * 100 div 100" by (rule zdiv_mono1) simp
      then show ?thesis by simp
    qed
    have q0: "0 \<le> c * (total' - 100) div 100" using p0 by (simp add: pos_imp_zdiv_nonneg_iff)
    have e1: "c_int (total' - 100) = total' - 100" using t by (intro c_int_id) auto
    have e2: "c_int (c * (total' - 100)) = c * (total' - 100)" using p0 no by (intro c_int_id) auto
    have e3: "c * (total' - 100) sdiv 100 = c * (total' - 100) div 100"
      using p0 by (rule sdiv_100_nonneg)
    have e4: "c_int (c * (total' - 100) div 100) = c * (total' - 100) div 100"
      using q q0 c1 by (intro c_int_id) auto
    have e5: "c_int (c - c * (total' - 100) div 100) = c - c * (total' - 100) div 100"
      using q q0 c0 c1 by (intro c_int_id) auto
    have "uint (ulong_of_int (c - c * (total' - 100) div 100)) = c - c * (total' - 100) div 100"
      using q q0 c0 c1 by (intro uint_ulong_of_int) auto
    then show ?thesis
      using m1 by (simp add: adjust_max_per_slice_def Let_def ci e1 e2 e3 e4 e5)
  qed
  have C: "uint (adjust_max_per_slice max_per_slice total' k start_index) = c div (total' sdiv 100)"
    if m2: "2 \<le> total' sdiv 100"
  proof -
    define m where "m = total' sdiv 100"
    have mp: "0 < m" "2 \<le> m" using m2 by (auto simp: m_def)
    have d: "c sdiv m = c div m" using c0 mp by (intro sdiv_nonneg) auto
    have d0: "0 \<le> c div m" using c0 mp by (simp add: pos_imp_zdiv_nonneg_iff)
    have d1: "c div m \<le> c" using zdiv_mono2 [of c 1 m] c0 mp by simp
    have e: "c_int (c div m) = c div m" using d0 d1 c1 by (intro c_int_id) auto
    have "uint (ulong_of_int (c div m)) = c div m" using d0 d1 c1 by (intro uint_ulong_of_int) auto
    then show ?thesis
      using mp by (simp add: adjust_max_per_slice_def Let_def ci d e m_def[symmetric])
  qed
  show ?thesis using A B C unfolding c_def by blast
qed

lemma one_le_word_iff: "1 \<le> (w::ulong) \<longleftrightarrow> w \<noteq> 0"
  by (metis word_le_0_iff word_less_1 linorder_not_less)

lemma ulong_of_int_eq_0_iff: "- (2 ^ 64) < x \<Longrightarrow> x < 2 ^ 64 \<Longrightarrow> ulong_of_int x = 0 \<longleftrightarrow> x = 0"
  unfolding ulong_of_int_def
  by (auto simp: word_of_int_eq_0_iff take_bit_int_eq_self_iff dest: zdvd_imp_le)

lemma sdiv_pos_neg: "0 \<le> a \<Longrightarrow> b < 0 \<Longrightarrow> a sdiv b = - (a div (- b :: int))"
  by (cases "a = 0") (simp_all add: signed_divide_int_def sgn_if)


lemma timersub_elapsed:
  assumes "0 \<le> tv_usec start" "tv_usec start < 1000000"
    and "0 \<le> tv_usec stop" "tv_usec stop < 1000000"
    and "0 \<le> tv_sec start" "tv_sec start < 2 ^ 40"
    and "0 \<le> tv_sec stop" "tv_sec stop < 2 ^ 40"
  shows "tv_sec (timersub stop start) * 1000000 + tv_usec (timersub stop start)
           = (tv_sec stop - tv_sec start) * 1000000 + (tv_usec stop - tv_usec start)"
    and "\<bar>tv_sec (timersub stop start)\<bar> \<le> 2 ^ 40"
    and "0 \<le> tv_usec (timersub stop start)" and "tv_usec (timersub stop start) < 1000000"
proof -
  have s: "c_long (tv_sec stop - tv_sec start) = tv_sec stop - tv_sec start"
    using assms by (intro c_long_id) auto
  have u: "c_long (tv_usec stop - tv_usec start) = tv_usec stop - tv_usec start"
    using assms by (intro c_long_id) auto
  have s1: "c_long (tv_sec stop - tv_sec start - 1) = tv_sec stop - tv_sec start - 1"
    using assms by (intro c_long_id) auto
  have u1: "c_long (tv_usec stop - tv_usec start + 1000000) = tv_usec stop - tv_usec start + 1000000"
    using assms by (intro c_long_id) auto
  have v: "timersub stop start =
      (if tv_usec stop - tv_usec start < 0
       then \<lparr>tv_sec = tv_sec stop - tv_sec start - 1, tv_usec = tv_usec stop - tv_usec start + 1000000\<rparr>
       else \<lparr>tv_sec = tv_sec stop - tv_sec start, tv_usec = tv_usec stop - tv_usec start\<rparr>)"
    by (simp add: timersub_def Let_def s u s1 u1)
  show "tv_sec (timersub stop start) * 1000000 + tv_usec (timersub stop start)
           = (tv_sec stop - tv_sec start) * 1000000 + (tv_usec stop - tv_usec start)"
    unfolding v by (simp add: algebra_simps)
  show "\<bar>tv_sec (timersub stop start)\<bar> \<le> 2 ^ 40"
    unfolding v using assms by (auto simp: abs_if)
  show "0 \<le> tv_usec (timersub stop start)"
    unfolding v using assms by simp
  show "tv_usec (timersub stop start) < 1000000"
    unfolding v using assms by simp
qed


text \<open>
  Claim C5. With \<open>completed = k - start_index\<close> and \<open>m = total / 100\<close> in C's integer
  division, \<^verbatim>\<open>adjust_max_per_slice\<close> returns \<open>completed\<close> when \<open>m = 0\<close>,
  \<open>completed - completed * (total - 100) / 100\<close> when \<open>m = 1\<close>, and \<open>completed / m\<close> when
  \<open>2 \<le> m\<close>. The inputs are those of a call the engine makes: \<open>start_index \<le> k\<close>, the
  difference and \<open>total\<close> in the range of \<^verbatim>\<open>int\<close>, and for \<open>m = 1\<close> the product in that
  range too.
\<close>

theorem adjust_max_per_slice_formula:
  fixes k :: u32 and start_index :: ulong
  assumes "start_index \<le> ucast k"
    and "uint k - uint start_index < 2 ^ 31"
    and "- (2 ^ 31) \<le> total'" and "total' < 2 ^ 31"
  shows "(total' sdiv 100 = 0 \<longrightarrow>
            uint (adjust_max_per_slice max_per_slice total' k start_index)
              = uint k - uint start_index) \<and>
         (total' sdiv 100 = 1 \<and> (uint k - uint start_index) * (total' - 100) < 2 ^ 31 \<longrightarrow>
            uint (adjust_max_per_slice max_per_slice total' k start_index)
              = (uint k - uint start_index)
                - (uint k - uint start_index) * (total' - 100) div 100) \<and>
         (2 \<le> total' sdiv 100 \<longrightarrow>
            uint (adjust_max_per_slice max_per_slice total' k start_index)
              = (uint k - uint start_index) div (total' sdiv 100))"
  using assms by (rule adjust_max_per_slice_cases)

theorem adjust_max_per_slice_formula_witness:
  "uint (adjust_max_per_slice 25 50 150 100) = 50 \<and>
   uint (adjust_max_per_slice 25 150 150 100) = 25 \<and>
   uint (adjust_max_per_slice 25 250 150 100) = 25"
  using adjust_max_per_slice_formula [of 100 150 50 25]
    adjust_max_per_slice_formula [of 100 150 150 25]
    adjust_max_per_slice_formula [of 100 150 250 25]
  by (simp add: signed_divide_int_def)

text \<open>
  Claim C4, as the code has it. The claim that the new \<^verbatim>\<open>max_per_slice\<close> is always at
  least 1 fails: one completed round with an accumulated total of 200 gives 0.
\<close>

theorem adjust_max_per_slice_zero: "(0::ulong) < ucast (1::u32) \<and> adjust_max_per_slice 25 200 1 0 = 0"
  by (simp add: adjust_max_per_slice_def int_of_ulong_def ulong_of_int_def c_int_def signed_divide_int_def)

text \<open>
  Claim C4, amended. For a call with \<open>start_index < k\<close> (and the values in the range of
  \<^verbatim>\<open>int\<close>), the result is at least 1 exactly when \<open>m\<close> is 0 or 1, or the number of
  completed rounds is at least \<open>\<bar>m\<bar>\<close>, where \<open>m = total / 100\<close>.
\<close>

theorem adjust_max_per_slice_floor_iff:
  fixes k :: u32 and start_index :: ulong
  assumes "start_index < ucast k"
    and "uint k - uint start_index < 2 ^ 31"
    and "- (2 ^ 31) \<le> total'" and "total' < 2 ^ 31"
    and "total' sdiv 100 = 1 \<longrightarrow> (uint k - uint start_index) * (total' - 100) < 2 ^ 31"
  shows "1 \<le> adjust_max_per_slice max_per_slice total' k start_index \<longleftrightarrow>
         total' sdiv 100 = 0 \<or> total' sdiv 100 = 1 \<or>
         \<bar>total' sdiv 100\<bar> \<le> uint k - uint start_index"
proof -
  define c where "c = uint k - uint start_index"
  define m where "m = total' sdiv 100"
  have le: "start_index \<le> ucast k" using assms(1) by simp
  have c0: "0 < c" using assms(1) by (simp add: c_def word_less_def uint_up_ucast is_up)
  have c1: "c < 2 ^ 31" using assms(2) by (simp add: c_def)
  have ci: "int_of_ulong (ucast k - start_index) = c"
    unfolding c_def using le assms(2) by (rule completed_int)
  note F = adjust_max_per_slice_cases [OF le assms(2,3,4), of max_per_slice, folded c_def m_def]
  consider "m = 0" | "m = 1" | "2 \<le> m" | "m < 0" by linarith
  then show ?thesis
  proof cases
    case 1
    then have "uint (adjust_max_per_slice max_per_slice total' k start_index) = c" using F by simp
    then have "adjust_max_per_slice max_per_slice total' k start_index \<noteq> 0" using c0 by auto
    then show ?thesis using 1 by (simp add: one_le_word_iff m_def)
  next
    case 2
    then have no: "c * (total' - 100) < 2 ^ 31" using assms(5) by (simp add: m_def c_def)
    have t: "100 \<le> total'" "total' < 200"
      using 2 by (auto simp: m_def signed_divide_int_def sgn_if split: if_splits)
    have "c * (total' - 100) \<le> c * 99" using c0 t by (intro mult_left_mono) auto
    then have "c * (total' - 100) div 100 \<le> c * 99 div 100" by (rule zdiv_mono1) simp
    also have "\<dots> < c" using c0 by simp
    finally have "0 < c - c * (total' - 100) div 100" by simp
    moreover have "uint (adjust_max_per_slice max_per_slice total' k start_index)
        = c - c * (total' - 100) div 100" using F 2 no by simp
    ultimately have "adjust_max_per_slice max_per_slice total' k start_index \<noteq> 0" by auto
    then show ?thesis using 2 by (simp add: one_le_word_iff m_def)
  next
    case 3
    then have u: "uint (adjust_max_per_slice max_per_slice total' k start_index) = c div m"
      using F by simp
    have "c div m \<noteq> 0 \<longleftrightarrow> m \<le> c" using 3 c0
      by (auto simp: div_eq_0_iff zdiv_eq_0_iff)
    moreover have "adjust_max_per_slice max_per_slice total' k start_index \<noteq> 0 \<longleftrightarrow> c div m \<noteq> 0"
      using u by (metis uint_0_iff)
    ultimately show ?thesis using 3 by (simp add: one_le_word_iff m_def[symmetric] c_def[symmetric])
  next
    case 4
    have d: "c sdiv m = - (c div (- m))" using c0 4 by (intro sdiv_pos_neg) auto
    have d0: "0 \<le> c div (- m)" using c0 4 by (simp add: pos_imp_zdiv_nonneg_iff)
    have d1: "c div (- m) \<le> c" using zdiv_mono2 [of c 1 "- m"] c0 4 by simp
    have e: "c_int (- (c div (- m))) = - (c div (- m))" using d0 d1 c1 by (intro c_int_id) auto
    have r: "adjust_max_per_slice max_per_slice total' k start_index = ulong_of_int (- (c div (- m)))"
      using 4 by (simp add: adjust_max_per_slice_def Let_def ci d e m_def[symmetric])
    have "ulong_of_int (- (c div (- m))) = 0 \<longleftrightarrow> - (c div (- m)) = 0"
      using d0 d1 c1 by (intro ulong_of_int_eq_0_iff) auto
    moreover have "c div (- m) \<noteq> 0 \<longleftrightarrow> - m \<le> c" using 4 c0
      by (auto simp: zdiv_eq_0_iff)
    ultimately show ?thesis using 4 r
      by (simp add: one_le_word_iff m_def[symmetric] c_def[symmetric] abs_if)
  qed
qed


theorem adjust_max_per_slice_floor_iff_witness:
  "1 \<le> adjust_max_per_slice 25 150 150 100 \<and> \<not> 1 \<le> adjust_max_per_slice 25 250 101 100"
  using adjust_max_per_slice_floor_iff [of 100 150 150 25]
    adjust_max_per_slice_floor_iff [of 100 101 250 25]
  by (simp add: signed_divide_int_def)

text \<open>
  Claim C6, as the code has it. The total does not grow by the clamped percentage: an
  elapsed time of 5000 microseconds returns 100 and adds 500 to the total.
\<close>

theorem calc_percent_total_unclamped:
  "calc_percent 0 \<lparr>tv_sec = 0, tv_usec = 0\<rparr> \<lparr>tv_sec = 0, tv_usec = 5000\<rparr> = (100, 500)"
  by (simp add: calc_percent_def timersub_def c_long_def c_int_def signed_divide_int_def Let_def)


text \<open>
  Claim C6, amended. For timestamps with \<open>stop\<close> not before \<open>start\<close>, \<^verbatim>\<open>calc_percent\<close>
  returns the elapsed microseconds divided by 10, clamped to the range from 1 to 100,
  and adds the unclamped quotient to the running total.
\<close>

theorem calc_percent_clamped:
  assumes "0 \<le> tv_usec start" "tv_usec start < 1000000"
    and "0 \<le> tv_usec stop" "tv_usec stop < 1000000"
    and "0 \<le> tv_sec start" "tv_sec start < 2 ^ 40"
    and "0 \<le> tv_sec stop" "tv_sec stop < 2 ^ 40"
    and "elapsed = (tv_sec stop - tv_sec start) * 1000000 + (tv_usec stop - tv_usec start)"
    and "0 \<le> elapsed" "elapsed div 10 < 2 ^ 31"
    and "- (2 ^ 31) \<le> total'" "total' + elapsed div 10 < 2 ^ 31"
  shows "calc_percent total' start stop = (max 1 (min 100 (elapsed div 10)), total' + elapsed div 10)"
proof -
  define d where "d = timersub stop start"
  have el: "tv_sec d * 1000000 + tv_usec d = elapsed"
    unfolding d_def assms(9) using assms(1-8) by (rule timersub_elapsed(1))
  have sb: "\<bar>tv_sec d\<bar> \<le> 2 ^ 40" unfolding d_def using assms(1-8) by (rule timersub_elapsed(2))
  have ub: "0 \<le> tv_usec d" "tv_usec d < 1000000"
    unfolding d_def using assms(1-8) by (rule timersub_elapsed(3), rule timersub_elapsed(4))
  have m: "c_long (tv_sec d * 1000000) = tv_sec d * 1000000"
    using sb by (intro c_long_id) auto
  have e0: "elapsed < 2 ^ 63"
    using assms(11) by simp
  have a: "c_long (tv_sec d * 1000000 + tv_usec d) = elapsed"
    unfolding el using assms(10) e0 by (intro c_long_id) auto
  have q: "elapsed sdiv 10 = elapsed div 10"
    using assms(10) by (intro sdiv_nonneg) auto
  have p0: "0 \<le> elapsed div 10" using assms(10) by (simp add: pos_imp_zdiv_nonneg_iff)
  have p: "c_int (elapsed div 10) = elapsed div 10"
    using p0 assms(11) by (intro c_int_id) auto
  have t: "c_int (total' + elapsed div 10) = total' + elapsed div 10"
    using p0 assms(12,13) by (intro c_int_id) auto
  have pct: "c_int (c_long (c_long (tv_sec d * 1000000) + tv_usec d) sdiv 10) = elapsed div 10"
    by (simp only: m a q p)
  have "calc_percent total' start stop =
      (if elapsed div 10 > 100 then (100, total' + elapsed div 10)
       else if elapsed div 10 = 0 then (1, total' + elapsed div 10)
       else (elapsed div 10, total' + elapsed div 10))"
    unfolding calc_percent_def Let_def d_def[symmetric] pct t by (rule refl)
  then show ?thesis
    using p0 by (auto simp: max_def min_def)
qed


theorem calc_percent_clamped_witness:
  "calc_percent 7 \<lparr>tv_sec = 1, tv_usec = 999990\<rparr> \<lparr>tv_sec = 2, tv_usec = 440\<rparr> = (45, 52)"
  using calc_percent_clamped [of "\<lparr>tv_sec = 1, tv_usec = 999990\<rparr>" "\<lparr>tv_sec = 2, tv_usec = 440\<rparr>" 450 7]
  by simp

section \<open>Properties of the codec\<close>

lemma list16:
  assumes "length (xs :: 'a list) = 16"
  obtains a0 a1 a2 a3 a4 a5 a6 a7 a8 a9 a10 a11 a12 a13 a14 a15
  where "xs = [a0, a1, a2, a3, a4, a5, a6, a7, a8, a9, a10, a11, a12, a13, a14, a15]"
proof -
  have "xs = map ((!) xs) [0..<16]"
    using assms by (metis map_nth)
  also have "\<dots> = [xs ! 0, xs ! 1, xs ! 2, xs ! 3, xs ! 4, xs ! 5, xs ! 6, xs ! 7,
      xs ! 8, xs ! 9, xs ! 10, xs ! 11, xs ! 12, xs ! 13, xs ! 14, xs ! 15]"
    by (simp add: upt_rec numeral_eq_Suc del: upt_Suc) 
  finally show ?thesis using that by blast
qed

lemma encode_group:
  "p + 3 \<le> len \<Longrightarrow> encode_loop data len p out =
     encode_loop data len (p + 3)
       (out @ map (\<lambda>x. Base64Code ! unat x)
          [drop_bit 2 (data ! p),
           push_bit 4 (data ! p AND 0x03) OR (drop_bit 4 (data ! (p + 1)) AND 0x0f),
           push_bit 2 (data ! (p + 1) AND 0x0f) OR (drop_bit 6 (data ! (p + 2)) AND 0x03),
           data ! (p + 2) AND 0x3f])"
  by (subst encode_loop.simps) (simp add: Let_def numeral_eq_Suc)

lemma encode_last1:
  "p + 1 = len \<Longrightarrow> encode_loop data len p out =
     out @ map (\<lambda>x. Base64Code ! unat x) [drop_bit 2 (data ! p), push_bit 4 (data ! p AND 0x03)]"
  by (subst encode_loop.simps) (simp add: Let_def)

lemma encode_16:
  "encode_base64 [a0, a1, a2, a3, a4, a5, a6, a7, a8, a9, a10, a11, a12, a13, a14, a15] 16 =
   map (\<lambda>x. Base64Code ! unat x)
     [drop_bit 2 a0, push_bit 4 (a0 AND 0x03) OR (drop_bit 4 a1 AND 0x0f),
      push_bit 2 (a1 AND 0x0f) OR (drop_bit 6 a2 AND 0x03), a2 AND 0x3f,
      drop_bit 2 a3, push_bit 4 (a3 AND 0x03) OR (drop_bit 4 a4 AND 0x0f),
      push_bit 2 (a4 AND 0x0f) OR (drop_bit 6 a5 AND 0x03), a5 AND 0x3f,
      drop_bit 2 a6, push_bit 4 (a6 AND 0x03) OR (drop_bit 4 a7 AND 0x0f),
      push_bit 2 (a7 AND 0x0f) OR (drop_bit 6 a8 AND 0x03), a8 AND 0x3f,
      drop_bit 2 a9, push_bit 4 (a9 AND 0x03) OR (drop_bit 4 a10 AND 0x0f),
      push_bit 2 (a10 AND 0x0f) OR (drop_bit 6 a11 AND 0x03), a11 AND 0x3f,
      drop_bit 2 a12, push_bit 4 (a12 AND 0x03) OR (drop_bit 4 a13 AND 0x0f),
      push_bit 2 (a13 AND 0x0f) OR (drop_bit 6 a14 AND 0x03), a14 AND 0x3f,
      drop_bit 2 a15, push_bit 4 (a15 AND 0x03)]"
  unfolding encode_base64_def
  apply (subst encode_group, simp)
  apply (subst encode_group, simp)
  apply (subst encode_group, simp)
  apply (subst encode_group, simp)
  apply (subst encode_group, simp)
  apply (subst encode_last1, simp)
  apply (simp add: numeral_eq_Suc)
  done

lemma decode_group:
  assumes "bp + 3 \<le> len"
    and "CHAR64 (c_at s p) = x1" "CHAR64 (c_at s (p + 1)) = x2"
    and "CHAR64 (c_at s (p + 2)) = x3" "CHAR64 (c_at s (p + 3)) = x4"
    and "x1 \<noteq> 255" "x2 \<noteq> 255" "x3 \<noteq> 255" "x4 \<noteq> 255"
  shows "decode_loop buffer len s bp p =
         decode_loop (buffer[bp := push_bit 2 x1 OR drop_bit 4 (x2 AND 0x30),
                             bp + 1 := push_bit 4 (x2 AND 0x0f) OR drop_bit 2 (x3 AND 0x3c),
                             bp + 2 := push_bit 6 (x3 AND 0x03) OR x4])
           len s (bp + 3) (p + 4)"
  using assms by (subst decode_loop.simps) (simp add: Let_def numeral_eq_Suc)

lemma decode_last1:
  assumes "bp + 1 = len"
    and "CHAR64 (c_at s p) = x1" "CHAR64 (c_at s (p + 1)) = x2"
    and "x1 \<noteq> 255" "x2 \<noteq> 255"
  shows "decode_loop buffer len s bp p =
         (0, buffer[bp := push_bit 2 x1 OR drop_bit 4 (x2 AND 0x30)])"
  using assms by (subst decode_loop.simps) (simp add: Let_def)

lemma CHAR64_Base64Code_all: "list_all (\<lambda>n. CHAR64 (Base64Code ! n) = of_nat n) [0..<64]"
  by code_simp

lemma index_64_inv_all:
  "list_all (\<lambda>n. index_64 ! n \<noteq> 255 \<longrightarrow>
      unat (index_64 ! n) < 64 \<and> Base64Code ! unat (index_64 ! n) = of_nat n) [0..<128]"
  by code_simp

lemma length_Base64Code: "length Base64Code = 64"
  by (simp add: Base64Code_def)

lemma CHAR64_Base64Code: "n < 64 \<Longrightarrow> CHAR64 (Base64Code ! n) = of_nat n"
  using CHAR64_Base64Code_all by (simp add: list_all_iff)

lemma lt64_iff: "(x::u8) < 64 \<longleftrightarrow> x AND mask 6 = x"
  using mask_eq_iff_w2p [of 6 x] by (simp add: word_size)

lemma CHAR64_sextet:
  assumes "(x::u8) AND mask 6 = x"
  shows "CHAR64 (Base64Code ! unat x) = x" and "x \<noteq> 255"
proof -
  have "x < 64" using assms by (simp add: lt64_iff)
  then have u: "unat x < 64" by (simp add: word_less_nat_alt)
  then show "CHAR64 (Base64Code ! unat x) = x" using CHAR64_Base64Code [of "unat x"] by simp
  show "x \<noteq> 255" using u by auto
qed

lemma CHAR64_invalid_iff: "CHAR64 c = 255 \<longleftrightarrow> c \<notin> set Base64Code"
proof
  assume inv: "CHAR64 c = 255"
  show "c \<notin> set Base64Code"
  proof
    assume "c \<in> set Base64Code"
    then obtain n where n: "n < 64" "c = Base64Code ! n"
      by (auto simp: in_set_conv_nth length_Base64Code)
    then have "CHAR64 c = of_nat n" by (simp add: CHAR64_Base64Code)
    with inv have "(of_nat n :: u8) = 255" by simp
    then have "unat (of_nat n :: u8) = 255" by simp
    moreover have "unat (of_nat n :: u8) = n" using n(1) by (simp add: unat_of_nat)
    ultimately show False using n(1) by simp
  qed
next
  assume out: "c \<notin> set Base64Code"
  show "CHAR64 c = 255"
  proof (rule ccontr)
    assume ne: "CHAR64 c \<noteq> 255"
    then have le: "\<not> c > 127" and ix: "index_64 ! unat c \<noteq> 255"
      by (auto simp: CHAR64_def split: if_splits)
    from le have "unat c < 128" by (simp add: word_less_nat_alt not_less word_le_nat_alt)
    with ix index_64_inv_all
    have "unat (index_64 ! unat c) < 64" "Base64Code ! unat (index_64 ! unat c) = of_nat (unat c)"
      by (auto simp: list_all_iff)
    then have "unat (index_64 ! unat c) < length Base64Code"
        "Base64Code ! unat (index_64 ! unat c) = c"
      by (simp_all add: length_Base64Code)
    then have "c \<in> set Base64Code"
      using nth_mem by metis
    with out show False by contradiction
  qed
qed

lemma mask_consts:
  "(3::u8) = mask 2" "(15::u8) = mask 4" "(48::u8) = push_bit 4 (mask 2)"
  "(60::u8) = push_bit 2 (mask 4)" "(63::u8) = mask 6"
  by (simp_all add: mask_eq_exp_minus_1)

lemma shift_index:
  "Suc (Suc (n - 2)) = (if n < 2 then 2 else n)"
  "2 + (n - 2) = (if n < 2 then 2 else n)"
  "4 + (n - 4) = (if n < 4 then 4 else n)"
  "6 + (n - 6) = (if n < 6 then 6 else n)"
  by auto

lemma sextets_in_range:
  fixes a b c :: u8
  shows "drop_bit 2 a AND mask 6 = drop_bit 2 a"
    and "(push_bit 4 (a AND 3) OR (drop_bit 4 b AND 15)) AND mask 6
           = push_bit 4 (a AND 3) OR (drop_bit 4 b AND 15)"
    and "(push_bit 2 (b AND 15) OR (drop_bit 6 c AND 3)) AND mask 6
           = push_bit 2 (b AND 15) OR (drop_bit 6 c AND 3)"
    and "(c AND 63) AND mask 6 = c AND 63"
    and "push_bit 4 (a AND 3) AND mask 6 = push_bit 4 (a AND 3)"
  unfolding mask_consts
  by (rule bit_word_eqI; auto simp: bit_simps shift_index dest: bit_imp_le_length)+

lemma bytes_restored:
  fixes a b c :: u8
  shows "push_bit 2 (drop_bit 2 a) OR
           drop_bit 4 ((push_bit 4 (a AND 3) OR (drop_bit 4 b AND 15)) AND 48) = a"
    and "push_bit 4 ((push_bit 4 (a AND 3) OR (drop_bit 4 b AND 15)) AND 15) OR
           drop_bit 2 ((push_bit 2 (b AND 15) OR (drop_bit 6 c AND 3)) AND 60) = b"
    and "push_bit 6 ((push_bit 2 (b AND 15) OR (drop_bit 6 c AND 3)) AND 3) OR (c AND 63) = c"
    and "push_bit 2 (drop_bit 2 a) OR drop_bit 4 (push_bit 4 (a AND 3) AND 48) = a"
  unfolding mask_consts
  by (rule bit_word_eqI; auto simp: bit_simps shift_index)+

lemma decode_group_invalid:
  assumes "bp + 3 \<le> len"
    and "CHAR64 (c_at s p) = 255 \<or> CHAR64 (c_at s (p + 1)) = 255 \<or>
         CHAR64 (c_at s (p + 2)) = 255 \<or> CHAR64 (c_at s (p + 3)) = 255"
  shows "fst (decode_loop buffer len s bp p) = - 1"
  using assms by (subst decode_loop.simps) (auto simp: Let_def)

lemma decode_last1_invalid:
  assumes "bp + 1 = len"
    and "CHAR64 (c_at s p) = 255 \<or> CHAR64 (c_at s (p + 1)) = 255"
  shows "fst (decode_loop buffer len s bp p) = - 1"
  using assms by (subst decode_loop.simps) (auto simp: Let_def)

lemma decode_last2_invalid:
  assumes "bp + 2 = len"
    and "CHAR64 (c_at s p) = 255 \<or> CHAR64 (c_at s (p + 1)) = 255 \<or>
         CHAR64 (c_at s (p + 2)) = 255"
  shows "fst (decode_loop buffer len s bp p) = - 1"
  using assms by (subst decode_loop.simps) (auto simp: Let_def)

lemma decode_loop_invalid_any:
  "bp + 3 * n + r = len \<Longrightarrow> r \<in> {1, 2, 3} \<Longrightarrow> i < 4 * n + r + 1 \<Longrightarrow>
   CHAR64 (c_at s (p + i)) = 255 \<Longrightarrow>
   fst (decode_loop buffer len s bp p) = - 1"
proof (induction n arbitrary: bp p i buffer)
  case 0
  from 0(2) consider "r = 1" | "r = 2" | "r = 3" by auto
  then show ?case
  proof cases
    case 1
    with 0 have "i = 0 \<or> i = 1" by auto
    with 0 1 show ?thesis by (intro decode_last1_invalid) auto
  next
    case 2
    with 0 have "i = 0 \<or> i = 1 \<or> i = 2" by auto
    with 0 2 show ?thesis by (intro decode_last2_invalid) auto
  next
    case 3
    with 0 have "i = 0 \<or> i = 1 \<or> i = 2 \<or> i = 3" by auto
    with 0 3 show ?thesis by (intro decode_group_invalid) auto
  qed
next
  case (Suc n)
  show ?case
  proof (cases "CHAR64 (c_at s p) = 255 \<or> CHAR64 (c_at s (p + 1)) = 255 \<or>
         CHAR64 (c_at s (p + 2)) = 255 \<or> CHAR64 (c_at s (p + 3)) = 255")
    case True
    with Suc.prems(1) show ?thesis by (intro decode_group_invalid) auto
  next
    case False
    then have i4: "4 \<le> i"
      using Suc.prems(4)
      by (cases "i = 0"; cases "i = 1"; cases "i = 2"; cases "i = 3") (auto simp: numeral_eq_Suc)
    have step: "decode_loop buffer len s bp p =
        decode_loop (buffer[bp := push_bit 2 (CHAR64 (c_at s p)) OR drop_bit 4 (CHAR64 (c_at s (p + 1)) AND 0x30),
                             bp + 1 := push_bit 4 (CHAR64 (c_at s (p + 1)) AND 0x0f) OR drop_bit 2 (CHAR64 (c_at s (p + 2)) AND 0x3c),
                             bp + 2 := push_bit 6 (CHAR64 (c_at s (p + 2)) AND 0x03) OR CHAR64 (c_at s (p + 3))])
           len s (bp + 3) (p + 4)"
      using Suc.prems(1,2) False by (intro decode_group) auto
    have "fst (decode_loop (buffer[bp := push_bit 2 (CHAR64 (c_at s p)) OR drop_bit 4 (CHAR64 (c_at s (p + 1)) AND 0x30),
                             bp + 1 := push_bit 4 (CHAR64 (c_at s (p + 1)) AND 0x0f) OR drop_bit 2 (CHAR64 (c_at s (p + 2)) AND 0x3c),
                             bp + 2 := push_bit 6 (CHAR64 (c_at s (p + 2)) AND 0x03) OR CHAR64 (c_at s (p + 3))])
           len s (bp + 3) (p + 4)) = - 1"
    proof (rule Suc.IH [where i = "i - 4"])
      show "bp + 3 + 3 * n + r = len" using Suc.prems(1) by simp
      show "r \<in> {1, 2, 3}" by (rule Suc.prems(2))
      show "i - 4 < 4 * n + r + 1" using Suc.prems(3) i4 by simp
      show "CHAR64 (c_at s (p + 4 + (i - 4))) = 255" using Suc.prems(4) i4 by simp
    qed
    with step show ?thesis by simp
  qed
qed

lemma decode_base64_invalid:
  assumes "0 < len" "i < (4 * len + 2) div 3" "c_at s i \<notin> set Base64Code"
  shows "fst (decode_base64 buffer len s) = - 1"
proof -
  define n where "n = (len - 1) div 3"
  define r where "r = (len - 1) mod 3 + 1"
  have l: "0 + 3 * n + r = len" using assms(1) by (simp add: n_def r_def)
  have r: "r \<in> {1, 2, 3}" unfolding r_def by auto
  have "(4 * len + 2) div 3 = 4 * n + r + 1"
    using l r by auto
  then have i: "i < 4 * n + r + 1" using assms(2) by simp
  have c: "CHAR64 (c_at s (0 + i)) = 255" using assms(3) by (simp add: CHAR64_invalid_iff)
  show ?thesis unfolding decode_base64_def by (rule decode_loop_invalid_any [OF l r i c])
qed

lemma decode_22:
  assumes "list_all (\<lambda>x. x AND mask 6 = x) [x0, x1, x2, x3, x4, x5, x6, x7, x8, x9, x10, x11, x12, x13, x14, x15, x16, x17, x18, x19, x20, x21]"
  shows "decode_base64 [g0, g1, g2, g3, g4, g5, g6, g7, g8, g9, g10, g11, g12, g13, g14, g15] 16
     (map (\<lambda>x. Base64Code ! unat x) [x0, x1, x2, x3, x4, x5, x6, x7, x8, x9, x10, x11, x12, x13, x14, x15, x16, x17, x18, x19, x20, x21])
   = (0, [push_bit 2 x0 OR drop_bit 4 (x1 AND 0x30),
          push_bit 4 (x1 AND 0x0f) OR drop_bit 2 (x2 AND 0x3c),
          push_bit 6 (x2 AND 0x03) OR x3,
          push_bit 2 x4 OR drop_bit 4 (x5 AND 0x30),
          push_bit 4 (x5 AND 0x0f) OR drop_bit 2 (x6 AND 0x3c),
          push_bit 6 (x6 AND 0x03) OR x7,
          push_bit 2 x8 OR drop_bit 4 (x9 AND 0x30),
          push_bit 4 (x9 AND 0x0f) OR drop_bit 2 (x10 AND 0x3c),
          push_bit 6 (x10 AND 0x03) OR x11,
          push_bit 2 x12 OR drop_bit 4 (x13 AND 0x30),
          push_bit 4 (x13 AND 0x0f) OR drop_bit 2 (x14 AND 0x3c),
          push_bit 6 (x14 AND 0x03) OR x15,
          push_bit 2 x16 OR drop_bit 4 (x17 AND 0x30),
          push_bit 4 (x17 AND 0x0f) OR drop_bit 2 (x18 AND 0x3c),
          push_bit 6 (x18 AND 0x03) OR x19,
          push_bit 2 x20 OR drop_bit 4 (x21 AND 0x30)])"
proof -
  have v: "\<And>x. x \<in> set [x0, x1, x2, x3, x4, x5, x6, x7, x8, x9, x10, x11, x12, x13, x14, x15, x16, x17, x18, x19, x20, x21] \<Longrightarrow> CHAR64 (Base64Code ! unat x) = x \<and> x \<noteq> 255"
    using assms CHAR64_sextet unfolding list_all_iff by blast
  show ?thesis
  unfolding decode_base64_def
  apply (subst decode_group [where ?x1.0 = x0 and ?x2.0 = x1 and ?x3.0 = x2 and ?x4.0 = x3])
           apply (simp_all add: c_at_def v)[9]
  apply (subst decode_group [where ?x1.0 = x4 and ?x2.0 = x5 and ?x3.0 = x6 and ?x4.0 = x7])
           apply (simp_all add: c_at_def v)[9]
  apply (subst decode_group [where ?x1.0 = x8 and ?x2.0 = x9 and ?x3.0 = x10 and ?x4.0 = x11])
           apply (simp_all add: c_at_def v)[9]
  apply (subst decode_group [where ?x1.0 = x12 and ?x2.0 = x13 and ?x3.0 = x14 and ?x4.0 = x15])
           apply (simp_all add: c_at_def v)[9]
  apply (subst decode_group [where ?x1.0 = x16 and ?x2.0 = x17 and ?x3.0 = x18 and ?x4.0 = x19])
           apply (simp_all add: c_at_def v)[9]
  apply (subst decode_last1 [where ?x1.0 = x20 and ?x2.0 = x21])
       apply (simp_all add: c_at_def v)[5]
  apply simp
  done
qed

lemma salt_decode_encode_16:
  "decode_base64 [g0, g1, g2, g3, g4, g5, g6, g7, g8, g9, g10, g11, g12, g13, g14, g15] 16
     (encode_base64 [a0, a1, a2, a3, a4, a5, a6, a7, a8, a9, a10, a11, a12, a13, a14, a15] 16)
   = (0, [a0, a1, a2, a3, a4, a5, a6, a7, a8, a9, a10, a11, a12, a13, a14, a15])"
  unfolding encode_16
  apply (subst decode_22)
   apply (simp only: list.pred_inject sextets_in_range simp_thms)
  apply (simp only: bytes_restored)
  done

text \<open>
  Claim C9. For every 16-byte salt, decoding its encoding with expected length 16 returns
  the 16 bytes, the encoding has 22 characters, and encoding the decoded bytes again gives
  the same 22 characters. For every expected length \<open>len\<close>, decoding a string with a byte
  outside the alphabet at one of the \<open>(4 * len + 2) div 3\<close> positions the decoder reads (22
  of them for 16 bytes; \<open>c_at\<close> is 0, also outside, from the end of the string on)
  returns -1.
\<close>

theorem salt_round_trip:
  assumes "length salt = 16" and "length buffer = 16"
  shows "decode_base64 buffer 16 (encode_base64 salt 16) = (0, salt) \<and>
         length (encode_base64 salt 16) = 22 \<and>
         encode_base64 (snd (decode_base64 buffer 16 (encode_base64 salt 16))) 16
           = encode_base64 salt 16 \<and>
         (\<forall>len buf s i. 0 < len \<and> i < (4 * len + 2) div 3 \<and> c_at s i \<notin> set Base64Code \<longrightarrow>
                fst (decode_base64 buf len s) = - 1)"
proof -
  obtain a0 a1 a2 a3 a4 a5 a6 a7 a8 a9 a10 a11 a12 a13 a14 a15
    where s: "salt = [a0, a1, a2, a3, a4, a5, a6, a7, a8, a9, a10, a11, a12, a13, a14, a15]"
    using assms(1) by (rule list16)
  obtain g0 g1 g2 g3 g4 g5 g6 g7 g8 g9 g10 g11 g12 g13 g14 g15
    where b: "buffer = [g0, g1, g2, g3, g4, g5, g6, g7, g8, g9, g10, g11, g12, g13, g14, g15]"
    using assms(2) by (rule list16)
  have rt: "decode_base64 buffer 16 (encode_base64 salt 16) = (0, salt)"
    unfolding s b by (rule salt_decode_encode_16)
  have len: "length (encode_base64 salt 16) = 22"
    unfolding s encode_16 by simp
  have inv: "fst (decode_base64 buf len s) = - 1"
    if "0 < len" "i < (4 * len + 2) div 3" "c_at s i \<notin> set Base64Code" for len buf s i
    using that by (rule decode_base64_invalid)
  show ?thesis using rt len inv by auto
qed


theorem salt_round_trip_witness:
  "decode_base64 (replicate 16 0) 16
     (encode_base64 [1, 2, 3, 4, 5, 6, 7, 8, 9, 10, 11, 12, 13, 14, 15, 255] 16)
     = (0, [1, 2, 3, 4, 5, 6, 7, 8, 9, 10, 11, 12, 13, 14, 15, 255]) \<and>
   fst (decode_base64 (replicate 16 0) 16 (map byte_of_char ''abcdefghijklmnopqrst!u'')) = - 1"
proof -
  let ?s = "map byte_of_char ''abcdefghijklmnopqrst!u''"
  have l: "length [1, 2, 3, 4, 5, 6, 7, 8, 9, 10, 11, 12, 13, 14, 15, 255 :: u8] = 16"
    "length (replicate 16 (0::u8)) = 16" by simp_all
  have c: "(0::nat) < 16 \<and> (20::nat) < (4 * 16 + 2) div 3 \<and> c_at ?s 20 \<notin> set Base64Code"
    by (simp add: c_at_def Base64Code_def byte_of_char_def)
  note t = salt_round_trip [OF l]
  from t have "decode_base64 (replicate 16 0) 16
     (encode_base64 [1, 2, 3, 4, 5, 6, 7, 8, 9, 10, 11, 12, 13, 14, 15, 255] 16)
     = (0, [1, 2, 3, 4, 5, 6, 7, 8, 9, 10, 11, 12, 13, 14, 15, 255])" by (rule conjunct1)
  moreover from t c have "fst (decode_base64 (replicate 16 0) 16 ?s) = - 1" by blast
  ultimately show ?thesis by (rule conjI)
qed

section \<open>Properties of the identifier parser\<close>

lemma c_at_drop: "c_at (drop n s) i = c_at s (n + i)"
  by (auto simp: c_at_def)

lemma isdigit_nonzero: "isdigit c \<Longrightarrow> c \<noteq> 0"
  by (auto simp: isdigit_def byte_of_char_def)

lemma isdigit_range: "isdigit c \<Longrightarrow> 48 \<le> uint c \<and> uint c \<le> 57"
  by (auto simp: isdigit_def byte_of_char_def word_le_def)

lemma isdigit_not_space: "isdigit c \<Longrightarrow> \<not> isspace c \<and> c \<noteq> byte_of_char CHR ''-'' \<and> c \<noteq> byte_of_char CHR ''+''"
  by (auto simp: isdigit_def isspace_def byte_of_char_def word_le_nat_alt)

lemma c_at_nonzero_Cons: "c_at s 0 \<noteq> 0 \<Longrightarrow> \<exists>t. s = c_at s 0 # t"
  by (cases s) (auto simp: c_at_def)

lemma c_at_Suc_Cons: "c_at (c # t) (Suc i) = c_at t i"
  by (auto simp: c_at_def)

lemma atoi_two_digits:
  assumes "isdigit (c_at s 0)" "isdigit (c_at s 1)" "c_at s 2 = byte_of_char CHR ''$''"
  shows "atoi s = 10 * (uint (c_at s 0) - 48) + (uint (c_at s 1) - 48)"
proof -
  obtain t where s: "s = c_at s 0 # t"
    using c_at_nonzero_Cons isdigit_nonzero [OF assms(1)] by blast
  have c1: "c_at s 1 = c_at t 0" by (subst s) (simp add: c_at_def)
  obtain u where t: "t = c_at s 1 # u"
    using c_at_nonzero_Cons [of t] isdigit_nonzero [OF assms(2)] c1 by auto
  have c2: "c_at s 2 = c_at u 0" by (subst s, subst t) (simp add: c_at_def)
  have "c_at u 0 \<noteq> 0" using assms(3) c2 by (simp add: byte_of_char_def)
  then obtain v where u: "u = byte_of_char CHR ''$'' # v"
    using c_at_nonzero_Cons [of u] assms(3) c2 by auto
  have nd: "\<not> isdigit (byte_of_char CHR ''$'')" by (simp add: isdigit_def byte_of_char_def)
  define d0 where "d0 = uint (c_at s 0) - 48"
  define d1 where "d1 = uint (c_at s 1) - 48"
  have r0: "0 \<le> d0" "d0 \<le> 9" using isdigit_range [OF assms(1)] by (auto simp: d0_def)
  have r1: "0 \<le> d1" "d1 \<le> 9" using isdigit_range [OF assms(2)] by (auto simp: d1_def)
  have w0: "c_int d0 = d0" using r0 by (simp add: c_int_def signed_take_bit_int_eq_self)
  have w1: "c_int (10 * d0 + d1) = 10 * d0 + d1"
    using r0 r1 by (simp add: c_int_def signed_take_bit_int_eq_self)
  have "atoi s = atoi_digits 0 (c_at s 0 # c_at s 1 # byte_of_char CHR ''$'' # v)"
    using isdigit_not_space [OF assms(1)] by (subst s, subst t, subst u) (simp add: atoi_def)
  also have "\<dots> = c_int (10 * c_int (10 * 0 + d0) + d1)"
    using assms(1,2) nd unfolding d0_def d1_def by (simp del: One_nat_def)
  also have "\<dots> = 10 * d0 + d1"
    by (simp add: w0 w1)
  finally show ?thesis by (simp add: d0_def d1_def)
qed

lemma length_decode_loop: "length (snd (decode_loop buffer len s bp p)) = length buffer"
proof (induction buffer len s bp p rule: decode_loop.induct)
  case (1 buffer len b64data bp p)
  show ?case
    by (subst decode_loop.simps) (auto simp: Let_def 1)
qed

lemma length_decode_base64: "decode_base64 buffer len s = (rc, out) \<Longrightarrow> length out = length buffer"
  using length_decode_loop [of buffer len s 0 0] by (simp add: decode_base64_def)

lemma length_enif_alloc_binary: "enif_alloc_binary h n = Some b \<Longrightarrow> length b = n"
  by (auto simp: enif_alloc_binary_def)

lemma ucast_rounds: "n < 32 \<Longrightarrow> (ucast (push_bit n (1::u32)) :: ulong) = 2 ^ n"
  by (rule bit_word_eqI) (auto simp: bit_simps)

lemma bcrypt_scheduled:
  assumes "result (bcrypt B heap argv) \<noteq> Badarg"
  shows "\<exists>key saltbuf state csalt.
    length argv = 2 \<and>
    enif_get_string (argv ! 0) 1024 = Some key \<and>
    enif_get_string (argv ! 1) 1024 = Some saltbuf \<and>
    c_at saltbuf 0 = byte_of_char CHR ''$'' \<and>
    c_at saltbuf 1 = byte_of_char CHR ''2'' \<and>
    (c_at saltbuf 2 = byte_of_char CHR ''a'' \<or> c_at saltbuf 2 = byte_of_char CHR ''b'') \<and>
    c_at saltbuf 3 = byte_of_char CHR ''$'' \<and>
    isdigit (c_at saltbuf 4) \<and> isdigit (c_at saltbuf 5) \<and>
    c_at saltbuf 6 = byte_of_char CHR ''$'' \<and>
    4 \<le> (word_of_int (atoi (drop 4 saltbuf)) :: u8) \<and>
    (word_of_int (atoi (drop 4 saltbuf)) :: u8) \<le> 31 \<and>
    length csalt = 16 \<and>
    bcrypt B heap argv =
      \<lparr>result = Schedule F_bcrypt_expandstate
         [ErlBinary state, ErlBinary csalt, argv ! 0,
          ErlULong (word_of_nat
            (if c_at saltbuf 2 = byte_of_char CHR ''a''
             then unat (word_of_nat (strlen key + 1) :: u8)
             else min (strlen key) 72 + 1)),
          ErlULong (ucast (push_bit (unat (word_of_int (atoi (drop 4 saltbuf)) :: u8)) 1 :: u32)),
          ErlULong (ucast (c_at saltbuf 2)),
          ErlULong (ucast (word_of_int (atoi (drop 4 saltbuf)) :: u8)),
          ErlULong 25, ErlULong 0],
       released = []\<rparr>"
proof -
  note D = bcrypt_def Let_def inval_def inval_release_csalt_def
      BCRYPT_VERSION_def BCRYPT_MINLOGROUNDS_def BCRYPT_MAXSALT_def
  have a1: "length argv = 2"
    by (rule ccontr) (use assms in \<open>simp add: D\<close>)
  obtain key where a2: "enif_get_string (argv ! 0) 1024 = Some key"
    by (cases "enif_get_string (argv ! 0) 1024") (use assms a1 in \<open>simp_all add: D\<close>)
  obtain saltbuf where a3: "enif_get_string (argv ! 1) 1024 = Some saltbuf"
    by (cases "enif_get_string (argv ! 1) 1024") (use assms a1 a2 in \<open>simp_all add: D\<close>)
  have a4: "c_at saltbuf 0 = byte_of_char CHR ''$''"
    by (rule ccontr) (use assms a1 a2 a3 in \<open>simp add: D\<close>)
  have a5: "c_at (drop 1 saltbuf) 0 = byte_of_char CHR ''2''"
    by (rule ccontr) (use assms a1 a2 a3 a4 in \<open>simp add: D\<close>)
  have a6: "c_at (drop 1 saltbuf) 1 = byte_of_char CHR ''a'' \<or>
            c_at (drop 1 saltbuf) 1 = byte_of_char CHR ''b''"
    by (rule ccontr) (use assms a1 a2 a3 a4 a5 in \<open>simp add: D\<close>)
  have a6': "(c_at (drop (Suc 0) saltbuf) (Suc 0) \<noteq> byte_of_char CHR ''a'' \<and>
             c_at (drop (Suc 0) saltbuf) (Suc 0) \<noteq> byte_of_char CHR ''b'') = False"
    using a6 by auto
  have a7: "c_at (drop 1 saltbuf) 2 = byte_of_char CHR ''$''"
    by (rule ccontr) (use assms a1 a2 a3 a4 a5 in \<open>simp add: D a6'\<close>)
  have a8: "\<not> (\<not> isdigit (c_at (drop 3 (drop 1 saltbuf)) 0) \<or>
                \<not> isdigit (c_at (drop 3 (drop 1 saltbuf)) 1) \<or>
                c_at (drop 3 (drop 1 saltbuf)) 2 \<noteq> byte_of_char CHR ''$'')"
    by (rule notI) (use assms a1 a2 a3 a4 a5 a7 in \<open>simp add: D a6'\<close>)
  have a9: "\<not> ((word_of_int (atoi (drop 3 (drop 1 saltbuf))) :: u8) < 4 \<or>
                31 < (word_of_int (atoi (drop 3 (drop 1 saltbuf))) :: u8))"
    by (rule notI) (use assms a1 a2 a3 a4 a5 a7 a8 in \<open>simp add: D a6'\<close>)
  have a10: "\<not> strlen (drop 3 (drop 3 (drop 1 saltbuf))) * 3 div 4 < 16"
    by (rule notI) (use assms a1 a2 a3 a4 a5 a7 a8 a9 in \<open>simp add: D a6'\<close>)
  obtain csalt0 where a11: "enif_alloc_binary (heap 0) 16 = Some csalt0"
    by (cases "enif_alloc_binary (heap 0) 16")
      (use assms a1 a2 a3 a4 a5 a7 a8 a9 a10 in \<open>simp_all add: D a6'\<close>)
  obtain rc csalt where a12:
      "decode_base64 csalt0 (length csalt0) (drop 3 (drop 3 (drop 1 saltbuf))) = (rc, csalt)"
    by (cases "decode_base64 csalt0 (length csalt0) (drop 3 (drop 3 (drop 1 saltbuf)))")
  have a13: "rc = 0"
    by (rule ccontr) (use assms a1 a2 a3 a4 a5 a7 a8 a9 a10 a11 a12 in \<open>simp add: D a6'\<close>)
  obtain state0 where a14: "enif_alloc_binary (heap 1) (blf_ctx_size B) = Some state0"
    by (cases "enif_alloc_binary (heap 1) (blf_ctx_size B)")
      (use assms a1 a2 a3 a4 a5 a7 a8 a9 a10 a11 a12 a13 in \<open>simp_all add: D a6'\<close>)
  have len: "length csalt = 16"
    using length_decode_base64 [OF a12] length_enif_alloc_binary [OF a11] by simp
  have p: "c_at (drop 1 saltbuf) 0 = c_at saltbuf 1" "c_at (drop 1 saltbuf) 1 = c_at saltbuf 2"
    "c_at (drop 1 saltbuf) 2 = c_at saltbuf 3"
    "c_at (drop 3 (drop 1 saltbuf)) 0 = c_at saltbuf 4"
    "c_at (drop 3 (drop 1 saltbuf)) 1 = c_at saltbuf 5"
    "c_at (drop 3 (drop 1 saltbuf)) 2 = c_at saltbuf 6"
    "drop 3 (drop 1 saltbuf) = drop 4 saltbuf"
    by (simp_all add: c_at_drop eval_nat_numeral)
  have eq: "bcrypt B heap argv =
      \<lparr>result = Schedule F_bcrypt_expandstate
         [ErlBinary (Blowfish_expandstate B (Blowfish_initstate B state0) csalt (length csalt)
            (key @ [0])
            (if c_at (drop 1 saltbuf) 1 = byte_of_char CHR ''a''
             then unat (word_of_nat (strlen key + 1) :: u8)
             else min (strlen key) 72 + 1)),
          ErlBinary csalt, argv ! 0,
          ErlULong (word_of_nat
            (if c_at (drop 1 saltbuf) 1 = byte_of_char CHR ''a''
             then unat (word_of_nat (strlen key + 1) :: u8)
             else min (strlen key) 72 + 1)),
          ErlULong (ucast (push_bit (unat (word_of_int (atoi (drop 3 (drop 1 saltbuf))) :: u8)) 1 :: u32)),
          ErlULong (ucast (c_at (drop 1 saltbuf) 1)),
          ErlULong (ucast (word_of_int (atoi (drop 3 (drop 1 saltbuf))) :: u8)),
          ErlULong 25, ErlULong 0],
       released = []\<rparr>"
    using a1 a2 a3 a4 a5 a7 a8 a9 a10 a11 a12 a13 a14 by (simp add: D a6')
  have b5: "c_at saltbuf 1 = byte_of_char CHR ''2''" using a5 unfolding p(1) .
  have b6: "c_at saltbuf 2 = byte_of_char CHR ''a'' \<or> c_at saltbuf 2 = byte_of_char CHR ''b''"
    using a6 unfolding p(2) .
  have b7: "c_at saltbuf 3 = byte_of_char CHR ''$''" using a7 unfolding p(3) .
  have b8: "isdigit (c_at saltbuf 4)" "isdigit (c_at saltbuf 5)"
    "c_at saltbuf 6 = byte_of_char CHR ''$''"
    using a8 unfolding p(4,5,6) by simp_all
  have b9: "4 \<le> (word_of_int (atoi (drop 4 saltbuf)) :: u8)"
    "(word_of_int (atoi (drop 4 saltbuf)) :: u8) \<le> 31"
    using a9 unfolding p(7) by (simp_all add: not_less)
  note eq' = eq [unfolded p(2), unfolded p(7)]
  show ?thesis
    using a1 a2 a3 a4 b5 b6 b7 b8 b9 len eq' by blast
qed

lemma two_digit_value:
  assumes "isdigit c0" "isdigit c1"
  shows "0 \<le> 10 * (uint c0 - 48) + (uint c1 - 48)" "10 * (uint c0 - 48) + (uint c1 - 48) \<le> 99"
  using isdigit_range [OF assms(1)] isdigit_range [OF assms(2)] by auto

lemma uint_u8_of_small: "0 \<le> x \<Longrightarrow> x \<le> 99 \<Longrightarrow> uint (word_of_int x :: u8) = x"
  by (simp add: uint_word_of_int take_bit_int_eq_self)


lemma ulong_arg_nth: "argv ! i = ErlULong n \<Longrightarrow> ulong_arg argv i = unat n"
  by (simp add: ulong_arg_def)

lemma bcrypt_minor_checked:
  assumes "enif_get_string (argv ! 1) 1024 = Some saltbuf"
    and "c_at saltbuf 2 \<noteq> byte_of_char CHR ''a''" "c_at saltbuf 2 \<noteq> byte_of_char CHR ''b''"
  shows "result (bcrypt B heap argv) = Badarg"
proof (rule ccontr)
  assume "result (bcrypt B heap argv) \<noteq> Badarg"
  from bcrypt_scheduled [OF this] assms show False by auto
qed


text \<open>
  Claim C7. With \<open>saltbuf\<close> the identifier string, \<^verbatim>\<open>bcrypt\<close> returns badarg unless the
  characters at offsets 4 and 5 are digits, the one at offset 6 is \<open>$\<close> and the decoded
  value \<open>logr\<close> lies between 4 and 31; and when it does not return badarg it schedules
  \<^verbatim>\<open>bcrypt_expandstate\<close> with \<open>rounds = 2 ^ logr\<close> and with \<open>logr\<close>.
\<close>

theorem bcrypt_rounds_field:
  assumes "enif_get_string (argv ! 1) 1024 = Some saltbuf"
    and "logr = 10 * (uint (c_at saltbuf 4) - 48) + (uint (c_at saltbuf 5) - 48)"
  shows "(\<not> (isdigit (c_at saltbuf 4) \<and> isdigit (c_at saltbuf 5) \<and>
              c_at saltbuf 6 = byte_of_char CHR ''$'' \<and> 4 \<le> logr \<and> logr \<le> 31) \<longrightarrow>
            result (bcrypt B heap argv) = Badarg) \<and>
         (result (bcrypt B heap argv) \<noteq> Badarg \<longrightarrow>
            (\<exists>argv'. result (bcrypt B heap argv) = Schedule F_bcrypt_expandstate argv' \<and>
               argv' ! 4 = ErlULong (2 ^ nat logr) \<and> argv' ! 6 = ErlULong (word_of_int logr)))"
proof -
  have main: "isdigit (c_at saltbuf 4) \<and> isdigit (c_at saltbuf 5) \<and>
      c_at saltbuf 6 = byte_of_char CHR ''$'' \<and> 4 \<le> logr \<and> logr \<le> 31 \<and>
      (\<exists>argv'. result (bcrypt B heap argv) = Schedule F_bcrypt_expandstate argv' \<and>
         argv' ! 4 = ErlULong (2 ^ nat logr) \<and> argv' ! 6 = ErlULong (word_of_int logr))"
    if ok: "result (bcrypt B heap argv) \<noteq> Badarg"
  proof -
    from bcrypt_scheduled [OF ok] assms(1)
    obtain key state csalt where
      d: "isdigit (c_at saltbuf 4)" "isdigit (c_at saltbuf 5)"
        "c_at saltbuf 6 = byte_of_char CHR ''$''"
      and r: "4 \<le> (word_of_int (atoi (drop 4 saltbuf)) :: u8)"
        "(word_of_int (atoi (drop 4 saltbuf)) :: u8) \<le> 31"
      and eq: "bcrypt B heap argv =
        \<lparr>result = Schedule F_bcrypt_expandstate
           [ErlBinary state, ErlBinary csalt, argv ! 0,
            ErlULong (word_of_nat
              (if c_at saltbuf 2 = byte_of_char CHR ''a''
               then unat (word_of_nat (strlen key + 1) :: u8)
               else min (strlen key) 72 + 1)),
            ErlULong (ucast (push_bit (unat (word_of_int (atoi (drop 4 saltbuf)) :: u8)) 1 :: u32)),
            ErlULong (ucast (c_at saltbuf 2)),
            ErlULong (ucast (word_of_int (atoi (drop 4 saltbuf)) :: u8)),
            ErlULong 25, ErlULong 0],
         released = []\<rparr>"
      by auto
    have at: "atoi (drop 4 saltbuf) = logr"
      unfolding assms(2) using d by (subst atoi_two_digits) (simp_all add: c_at_drop)
    have v: "0 \<le> logr" "logr \<le> 99" unfolding assms(2) using d(1,2) by (rule two_digit_value)+
    have u: "uint (word_of_int logr :: u8) = logr" using v by (rule uint_u8_of_small)
    have range: "4 \<le> logr" "logr \<le> 31"
      using r u unfolding at by (simp_all add: word_le_def)
    have n: "unat (word_of_int logr :: u8) = nat logr" using u by (simp add: unat_eq_nat_uint)
    have n32: "nat logr < 32" using range by simp
    have rounds: "(ucast (push_bit (unat (word_of_int logr :: u8)) 1 :: u32) :: ulong) = 2 ^ nat logr"
      unfolding n using n32 by (rule ucast_rounds)
    have lg: "(ucast (word_of_int logr :: u8) :: ulong) = word_of_int logr"
      using u by (simp add: ucast_eq)
    show ?thesis
      using d range rounds lg unfolding eq at by simp
  qed
  show ?thesis using main by blast
qed

theorem bcrypt_rounds_field_witness:
  "scheduled_argv (bcrypt demo_blf demo_heap
      [ErlString (map byte_of_char ''abc''),
       ErlString (map byte_of_char ''$2b$12$abcdefghijklmnopqrstuu'')]) ! 4 = ErlULong 4096 \<and>
   result (bcrypt demo_blf demo_heap
      [ErlString (map byte_of_char ''abc''),
       ErlString (map byte_of_char ''$2b$32$abcdefghijklmnopqrstuu'')]) = Badarg"
proof -
  let ?pw = "ErlString (map byte_of_char ''abc'')"
  let ?s1 = "map byte_of_char ''$2b$12$abcdefghijklmnopqrstuu''"
  let ?s2 = "map byte_of_char ''$2b$32$abcdefghijklmnopqrstuu''"
  have g1: "enif_get_string ([?pw, ErlString ?s1] ! 1) 1024 = Some ?s1"
    by (simp add: enif_get_string_def c_string_def byte_of_char_def)
  have g2: "enif_get_string ([?pw, ErlString ?s2] ! 1) 1024 = Some ?s2"
    by (simp add: enif_get_string_def c_string_def byte_of_char_def)
  have l1: "12 = 10 * (uint (c_at ?s1 4) - 48) + (uint (c_at ?s1 5) - 48)"
    by (simp add: c_at_def byte_of_char_def)
  have l2: "32 = 10 * (uint (c_at ?s2 4) - 48) + (uint (c_at ?s2 5) - 48)"
    by (simp add: c_at_def byte_of_char_def)
  have ok: "result (bcrypt demo_blf demo_heap [?pw, ErlString ?s1]) \<noteq> Badarg"
    by code_simp
  from bcrypt_rounds_field [OF g1 l1, of demo_blf demo_heap] ok
  have "scheduled_argv (bcrypt demo_blf demo_heap [?pw, ErlString ?s1]) ! 4 = ErlULong 4096"
    by (auto simp: scheduled_argv_def)
  moreover from bcrypt_rounds_field [OF g2 l2, of demo_blf demo_heap]
  have "result (bcrypt demo_blf demo_heap [?pw, ErlString ?s2]) = Badarg"
    by simp
  ultimately show ?thesis by (rule conjI)
qed


text \<open>
  Claim C2, as the code has it. Under minor \<open>a\<close> the key length is not
  \<open>strlen(password) + 1\<close> without a cap: the sum is cast to \<^verbatim>\<open>u_int8_t\<close>, so a password of
  255 characters gets the key length 0.
\<close>

theorem bcrypt_key_len_wraps:
  "result (bcrypt demo_blf demo_heap
      [ErlString (replicate 255 (byte_of_char CHR ''x'')),
       ErlString (map byte_of_char ''$2a$04$......................'')]) \<noteq> Badarg \<and>
   strlen (replicate 255 (byte_of_char CHR ''x'')) + 1 = 256 \<and>
   ulong_arg (scheduled_argv (bcrypt demo_blf demo_heap
      [ErlString (replicate 255 (byte_of_char CHR ''x'')),
       ErlString (map byte_of_char ''$2a$04$......................'')])) 3 = 0"
  by code_simp

text \<open>
  Claim C2, amended. When \<^verbatim>\<open>bcrypt\<close> accepts its arguments, the key length it passes on
  is \<open>(strlen(key) + 1) mod 256\<close> under minor \<open>a\<close> and \<open>min(strlen(key), 72) + 1\<close> under
  minor \<open>b\<close>; any other minor character makes it return badarg.
\<close>

theorem bcrypt_key_len:
  assumes "enif_get_string (argv ! 0) 1024 = Some key"
    and "enif_get_string (argv ! 1) 1024 = Some saltbuf"
  shows "(result (bcrypt B heap argv) \<noteq> Badarg \<and> c_at saltbuf 2 = byte_of_char CHR ''a'' \<longrightarrow>
            ulong_arg (scheduled_argv (bcrypt B heap argv)) 3 = (strlen key + 1) mod 256) \<and>
         (result (bcrypt B heap argv) \<noteq> Badarg \<and> c_at saltbuf 2 = byte_of_char CHR ''b'' \<longrightarrow>
            ulong_arg (scheduled_argv (bcrypt B heap argv)) 3 = min (strlen key) 72 + 1) \<and>
         (c_at saltbuf 2 \<noteq> byte_of_char CHR ''a'' \<and> c_at saltbuf 2 \<noteq> byte_of_char CHR ''b'' \<longrightarrow>
            result (bcrypt B heap argv) = Badarg)"
proof -
  have len: "ulong_arg (scheduled_argv (bcrypt B heap argv)) 3 =
      (if c_at saltbuf 2 = byte_of_char CHR ''a'' then (strlen key + 1) mod 256
       else min (strlen key) 72 + 1)"
    if ok: "result (bcrypt B heap argv) \<noteq> Badarg"
  proof -
    from bcrypt_scheduled [OF ok] assms
    obtain state csalt where
      eq: "bcrypt B heap argv =
        \<lparr>result = Schedule F_bcrypt_expandstate
           [ErlBinary state, ErlBinary csalt, argv ! 0,
            ErlULong (word_of_nat
              (if c_at saltbuf 2 = byte_of_char CHR ''a''
               then unat (word_of_nat (strlen key + 1) :: u8)
               else min (strlen key) 72 + 1)),
            ErlULong (ucast (push_bit (unat (word_of_int (atoi (drop 4 saltbuf)) :: u8)) 1 :: u32)),
            ErlULong (ucast (c_at saltbuf 2)),
            ErlULong (ucast (word_of_int (atoi (drop 4 saltbuf)) :: u8)),
            ErlULong 25, ErlULong 0],
         released = []\<rparr>"
      by auto
    have a8: "unat (word_of_nat m :: u8) = m mod 256" for m
      by (simp add: unat_of_nat)
    have a64: "unat (word_of_nat (m mod 256) :: ulong) = m mod 256" for m :: nat
    proof -
      have "m mod 256 < 2 ^ 64" by (rule less_trans [of _ 256]) simp_all
      then show ?thesis by (simp add: unat_of_nat)
    qed
    have a: "unat (word_of_nat (unat (word_of_nat (strlen key + 1) :: u8)) :: ulong)
        = (strlen key + 1) mod 256"
      unfolding a8 by (rule a64)
    have b64: "m < 2 ^ 64 \<Longrightarrow> unat (word_of_nat m :: ulong) = m" for m :: nat
      by (simp add: unat_of_nat)
    have b: "unat (word_of_nat (min (strlen key) 72 + 1) :: ulong) = min (strlen key) 72 + 1"
      by (rule b64) simp
    show ?thesis
      unfolding eq using a b by (simp add: scheduled_argv_def ulong_arg_def)
  qed
  show ?thesis
    using len bcrypt_minor_checked [OF assms(2), of B heap] by (auto simp: byte_of_char_def)
qed


theorem bcrypt_key_len_witness:
  "ulong_arg (scheduled_argv (bcrypt demo_blf demo_heap
      [ErlString (replicate 80 (byte_of_char CHR ''x'')),
       ErlString (map byte_of_char ''$2b$04$abcdefghijklmnopqrstuu'')])) 3 = 73 \<and>
   ulong_arg (scheduled_argv (bcrypt demo_blf demo_heap
      [ErlString (replicate 80 (byte_of_char CHR ''x'')),
       ErlString (map byte_of_char ''$2a$04$abcdefghijklmnopqrstuu'')])) 3 = 81 \<and>
   result (bcrypt demo_blf demo_heap
      [ErlString (replicate 80 (byte_of_char CHR ''x'')),
       ErlString (map byte_of_char ''$2c$04$abcdefghijklmnopqrstuu'')]) = Badarg"
proof -
  let ?key = "replicate 80 (byte_of_char CHR ''x'')"
  let ?sa = "map byte_of_char ''$2a$04$abcdefghijklmnopqrstuu''"
  let ?sb = "map byte_of_char ''$2b$04$abcdefghijklmnopqrstuu''"
  let ?sc = "map byte_of_char ''$2c$04$abcdefghijklmnopqrstuu''"
  have k: "enif_get_string ([ErlString ?key, ErlString s] ! 0) 1024 = Some ?key" for s
    by (simp add: enif_get_string_def c_string_def byte_of_char_def)
  have sl: "strlen ?key = 80" by (simp add: strlen_def c_string_def byte_of_char_def)
  have ga: "enif_get_string ([ErlString ?key, ErlString ?sa] ! 1) 1024 = Some ?sa"
    by (simp add: enif_get_string_def c_string_def byte_of_char_def)
  have gb: "enif_get_string ([ErlString ?key, ErlString ?sb] ! 1) 1024 = Some ?sb"
    by (simp add: enif_get_string_def c_string_def byte_of_char_def)
  have gc: "enif_get_string ([ErlString ?key, ErlString ?sc] ! 1) 1024 = Some ?sc"
    by (simp add: enif_get_string_def c_string_def byte_of_char_def)
  have oka: "result (bcrypt demo_blf demo_heap [ErlString ?key, ErlString ?sa]) \<noteq> Badarg"
    by code_simp
  have okb: "result (bcrypt demo_blf demo_heap [ErlString ?key, ErlString ?sb]) \<noteq> Badarg"
    by code_simp
  have ma: "c_at ?sa 2 = byte_of_char CHR ''a''" by (simp add: c_at_def)
  have mb: "c_at ?sb 2 = byte_of_char CHR ''b''" by (simp add: c_at_def)
  have mc: "c_at ?sc 2 \<noteq> byte_of_char CHR ''a'' \<and> c_at ?sc 2 \<noteq> byte_of_char CHR ''b''"
    by (simp add: c_at_def byte_of_char_def)
  from bcrypt_key_len [OF k gb, of demo_blf demo_heap] okb mb sl
  have "ulong_arg (scheduled_argv (bcrypt demo_blf demo_heap [ErlString ?key, ErlString ?sb])) 3 = 73"
    by simp
  moreover from bcrypt_key_len [OF k ga, of demo_blf demo_heap] oka ma sl
  have "ulong_arg (scheduled_argv (bcrypt demo_blf demo_heap [ErlString ?key, ErlString ?sa])) 3 = 81"
    by simp
  moreover from bcrypt_key_len [OF k gc, of demo_blf demo_heap] mc
  have "result (bcrypt demo_blf demo_heap [ErlString ?key, ErlString ?sc]) = Badarg"
    by blast
  ultimately show ?thesis by blast
qed

section \<open>Properties of the engine\<close>

lemma funpow_Suc_apply: "(f ^^ Suc n) x = (f ^^ n) (f x)"
  by (simp add: funpow_swap1)

lemma unat_succ_below:
  fixes k rounds :: u32
  assumes "unat k < unat rounds"
  shows "unat (k + 1) = unat k + 1"
proof -
  have "unat rounds < 2 ^ 32" using unsigned_less [of rounds] by simp
  then have "unat k + 1 < 2 ^ 32" using assms by simp
  then show ?thesis by (simp add: unat_word_ariths)
qed

lemma unat_ucast_u32: "unat (ucast (k::u32) :: ulong) = unat k"
  by (simp add: unat_eq_nat_uint uint_up_ucast is_up del: nat_uint_eq)

lemma ucast_less_iff:
  fixes k :: u32 and e :: ulong
  shows "ucast k < e \<longleftrightarrow> unat k < unat e"
  by (simp add: word_less_nat_alt unat_ucast_u32)

lemma ucast_le_iff:
  fixes r :: u32 and e :: ulong
  shows "e \<le> ucast r \<longleftrightarrow> unat e \<le> unat r"
  by (simp add: word_le_nat_alt unat_ucast_u32)

lemma expand_do_while_result:
  fixes k rounds :: u32
  assumes "unat end' - Suc (unat k) = n" "unat k < unat rounds" "end' \<le> ucast rounds"
  shows "\<exists>k'. expand_do_while B state key key_len csalt k end' =
           Some ((expand_round B key key_len csalt ^^ (unat k' - unat k)) state, k') \<and>
         unat k' = max (unat k + 1) (unat end')"
  using assms
proof (induction n arbitrary: k state)
  case 0
  have s: "unat (k + 1) = unat k + 1" using 0(2) by (rule unat_succ_below)
  have "\<not> ucast (k + 1) < end'" using 0(1) by (simp add: ucast_less_iff s)
  then have "expand_do_while B state key key_len csalt k end' =
      Some (expand_round B key key_len csalt state, k + 1)"
    by (subst expand_do_while.simps) (simp add: Let_def expand_round_def)
  moreover have "unat (k + 1) = max (unat k + 1) (unat end')" using 0(1) s by simp
  ultimately show ?case using s by (intro exI [of _ "k + 1"]) simp
next
  case (Suc n)
  have s: "unat (k + 1) = unat k + 1" using Suc(3) by (rule unat_succ_below)
  have lt: "unat k + 1 < unat end'" using Suc(2) by simp
  have c: "ucast (k + 1) < end'" using lt by (simp add: ucast_less_iff s)
  have le: "unat end' \<le> unat rounds" using Suc(4) by (simp add: ucast_le_iff)
  have st: "expand_do_while B state key key_len csalt k end' =
      expand_do_while B (expand_round B key key_len csalt state) key key_len csalt (k + 1) end'"
    using c by (subst expand_do_while.simps) (simp add: Let_def expand_round_def)
  have "unat end' - Suc (unat (k + 1)) = n" using Suc(2) s by simp
  moreover have "unat (k + 1) < unat rounds" using lt le s by simp
  ultimately obtain k' where
    r: "expand_do_while B (expand_round B key key_len csalt state) key key_len csalt (k + 1) end' =
          Some ((expand_round B key key_len csalt ^^ (unat k' - unat (k + 1)))
                  (expand_round B key key_len csalt state), k')"
    and m: "unat k' = max (unat (k + 1) + 1) (unat end')"
    using Suc.IH [of "k + 1" "expand_round B key key_len csalt state"] Suc(4) by blast
  have m': "unat k' = max (unat k + 1) (unat end')" using m lt s by simp
  have "unat k' - unat k = Suc (unat k' - unat (k + 1))" using m' lt s by simp
  then have "(expand_round B key key_len csalt ^^ (unat k' - unat (k + 1)))
                  (expand_round B key key_len csalt state)
      = (expand_round B key key_len csalt ^^ (unat k' - unat k)) state"
    by (simp add: funpow_swap1)
  with st r m' show ?case by (intro exI [of _ k']) simp
qed

lemma funpow_compose: "(f ^^ a) ((f ^^ b) x) = (f ^^ (a + b)) x"
  by (simp add: funpow_add)

lemma unat_eq_rounds: "(k::u32) = rounds \<longleftrightarrow> unat k = unat rounds"
  by (simp add: word_unat_eq_iff)

lemma expand_slices_result:
  fixes k rounds :: u32
  assumes "unat k < unat rounds" "end' \<le> ucast rounds"
  shows "\<exists>r. expand_slices B env argv key key_len csalt rounds max_per_slice start_index
                state total' k end' j = Some r \<and>
           released r = [] \<and>
           (result r = Schedule F_bcrypt_fini
              [ErlBinary ((expand_round B key key_len csalt ^^ (unat rounds - unat k)) state),
               ErlBinary csalt, argv ! 5, argv ! 6] \<or>
            (\<exists>(k'::u32) m. unat k < unat k' \<and> unat k' < unat rounds \<and>
               result r = Schedule F_bcrypt_expandstate
                 [ErlBinary ((expand_round B key key_len csalt ^^ (unat k' - unat k)) state),
                  ErlBinary csalt, argv ! 2, argv ! 3, argv ! 4, argv ! 5, argv ! 6,
                  ErlULong m, ErlULong (ucast k')]))"
  using assms
proof (induction "unat rounds - unat k" arbitrary: k state total' end' j rule: less_induct)
  case less
  let ?E = "expand_round B key key_len csalt"
  obtain k1 where
    dw: "expand_do_while B state key key_len csalt k end' =
           Some ((?E ^^ (unat k1 - unat k)) state, k1)"
    and m: "unat k1 = max (unat k + 1) (unat end')"
    using expand_do_while_result [OF refl less.prems] by blast
  have le: "unat end' \<le> unat rounds" using less.prems(2) by (simp add: ucast_le_iff)
  have k1: "unat k < unat k1" "unat k1 \<le> unat rounds" using m le less.prems(1) by auto
  show ?case
  proof (cases "k1 = rounds")
    case True
    have "expand_slices B env argv key key_len csalt rounds max_per_slice start_index
              state total' k end' j =
          Some \<lparr>result = Schedule F_bcrypt_fini
                 [ErlBinary ((?E ^^ (unat k1 - unat k)) state), ErlBinary csalt,
                  argv ! 5, argv ! 6],
                released = []\<rparr>"
      using True by (subst expand_slices.simps) (simp add: dw Let_def)
    then show ?thesis using True by simp
  next
    case False
    then have lt: "unat k1 < unat rounds" using k1(2) by (simp add: unat_eq_rounds)
    obtain pct t1 where
      cp: "calc_percent total' (gettimeofday env (2 * j)) (gettimeofday env (Suc (2 * j))) = (pct, t1)"
      by force
    show ?thesis
    proof (cases "enif_consume_timeslice env j pct")
      case True
      define r0 where "r0 = \<lparr>result = Schedule F_bcrypt_expandstate
                 [ErlBinary ((?E ^^ (unat k1 - unat k)) state), ErlBinary csalt,
                  argv ! 2, argv ! 3, argv ! 4, argv ! 5, argv ! 6,
                  ErlULong (adjust_max_per_slice (int_of_ulong max_per_slice) t1 k1 start_index),
                  ErlULong (ucast k1)],
                released = []\<rparr>"
      have e: "expand_slices B env argv key key_len csalt rounds max_per_slice start_index
              state total' k end' j = Some r0"
        unfolding r0_def using True \<open>k1 \<noteq> rounds\<close>
        by (subst expand_slices.simps) (simp add: dw Let_def cp)
      have c: "\<exists>(k'::u32) m. unat k < unat k' \<and> unat k' < unat rounds \<and>
               result r0 = Schedule F_bcrypt_expandstate
                 [ErlBinary ((?E ^^ (unat k' - unat k)) state),
                  ErlBinary csalt, argv ! 2, argv ! 3, argv ! 4, argv ! 5, argv ! 6,
                  ErlULong m, ErlULong (ucast k')]"
        by (rule exI [of _ k1],
            rule exI [of _ "adjust_max_per_slice (int_of_ulong max_per_slice) t1 k1 start_index"])
          (simp add: r0_def k1(1) lt)
      have "released r0 = []" by (simp add: r0_def)
      with e c show ?thesis by blast
    next
      case no: False
      define e2 where "e2 = (if end' + max_per_slice > ucast rounds then ucast rounds
                             else end' + max_per_slice)"
      have e2: "e2 \<le> ucast rounds" by (simp add: e2_def not_less)
      have step: "expand_slices B env argv key key_len csalt rounds max_per_slice start_index
              state total' k end' j =
          expand_slices B env argv key key_len csalt rounds max_per_slice start_index
              ((?E ^^ (unat k1 - unat k)) state) t1 k1 e2 (j + 1)"
        using no \<open>k1 \<noteq> rounds\<close>
        by (subst expand_slices.simps) (simp add: dw Let_def cp e2_def)
      have "unat rounds - unat k1 < unat rounds - unat k" using k1 lt by simp
      from less.hyps [OF this lt e2, of "(?E ^^ (unat k1 - unat k)) state" t1 "j + 1"]
      obtain r where
        r: "expand_slices B env argv key key_len csalt rounds max_per_slice start_index
              ((?E ^^ (unat k1 - unat k)) state) t1 k1 e2 (j + 1) = Some r"
          "released r = []"
        and d: "result r = Schedule F_bcrypt_fini
              [ErlBinary ((?E ^^ (unat rounds - unat k1)) ((?E ^^ (unat k1 - unat k)) state)),
               ErlBinary csalt, argv ! 5, argv ! 6] \<or>
            (\<exists>(k'::u32) m. unat k1 < unat k' \<and> unat k' < unat rounds \<and>
               result r = Schedule F_bcrypt_expandstate
                 [ErlBinary ((?E ^^ (unat k' - unat k1)) ((?E ^^ (unat k1 - unat k)) state)),
                  ErlBinary csalt, argv ! 2, argv ! 3, argv ! 4, argv ! 5, argv ! 6,
                  ErlULong m, ErlULong (ucast k')])"
        by blast
      have f1: "(?E ^^ (unat rounds - unat k1)) ((?E ^^ (unat k1 - unat k)) state)
          = (?E ^^ (unat rounds - unat k)) state"
        using k1 lt by (simp add: funpow_compose)
      have f2: "(?E ^^ (unat k' - unat k1)) ((?E ^^ (unat k1 - unat k)) state)
          = (?E ^^ (unat k' - unat k)) state" if "unat k1 < unat k'" for k' :: u32
        using k1 that by (simp add: funpow_compose)
      from d show ?thesis
      proof
        assume "result r = Schedule F_bcrypt_fini
              [ErlBinary ((?E ^^ (unat rounds - unat k1)) ((?E ^^ (unat k1 - unat k)) state)),
               ErlBinary csalt, argv ! 5, argv ! 6]"
        then show ?thesis using r step f1 by simp
      next
        assume "\<exists>(k'::u32) m. unat k1 < unat k' \<and> unat k' < unat rounds \<and>
               result r = Schedule F_bcrypt_expandstate
                 [ErlBinary ((?E ^^ (unat k' - unat k1)) ((?E ^^ (unat k1 - unat k)) state)),
                  ErlBinary csalt, argv ! 2, argv ! 3, argv ! 4, argv ! 5, argv ! 6,
                  ErlULong m, ErlULong (ucast k')]"
        then obtain k' :: u32 and m where
          a: "unat k1 < unat k'" and b: "unat k' < unat rounds" and
          c: "result r = Schedule F_bcrypt_expandstate
                 [ErlBinary ((?E ^^ (unat k' - unat k1)) ((?E ^^ (unat k1 - unat k)) state)),
                  ErlBinary csalt, argv ! 2, argv ! 3, argv ! 4, argv ! 5, argv ! 6,
                  ErlULong m, ErlULong (ucast k')]"
          by blast
        have c': "result r = Schedule F_bcrypt_expandstate
                 [ErlBinary ((?E ^^ (unat k' - unat k)) state),
                  ErlBinary csalt, argv ! 2, argv ! 3, argv ! 4, argv ! 5, argv ! 6,
                  ErlULong m, ErlULong (ucast k')]"
          using c unfolding f2 [OF a] .
        have a': "unat k < unat k'" using k1(1) a by simp
        have s: "expand_slices B env argv key key_len csalt rounds max_per_slice start_index
              state total' k end' j = Some r" using step r(1) by simp
        from s r(2) a' b c' show ?thesis by blast
      qed
    qed
  qed
qed

lemma enif_get_string_password:
  "enif_get_string (ErlString password) 1024 = Some (c_string (take 1023 password))"
  by (simp add: enif_get_string_def)

lemma unat_ucast_small:
  fixes s :: ulong and r :: u32
  assumes "unat s < unat r"
  shows "unat (ucast s :: u32) = unat s" and "(ucast (ucast s :: u32) :: ulong) = s"
proof -
  have "unat r < 2 ^ 32" using unsigned_less [of r] by simp
  then have lt: "unat s < 2 ^ 32" using assms by simp
  show u: "unat (ucast s :: u32) = unat s"
    using lt by (simp add: unsigned_ucast_eq take_bit_nat_eq_self)
  show "(ucast (ucast s :: u32) :: ulong) = s"
    by (rule word_unat_eq_iff [THEN iffD2]) (simp add: unat_ucast_u32 u)
qed

lemma bcrypt_expandstate_result:
  fixes start_index rounds :: ulong
  assumes "unat start_index < unat (ucast rounds :: u32)"
  shows "\<exists>r. bcrypt_expandstate B env
                (expand_argv state csalt password key_len rounds minor logr max_per_slice start_index)
              = Some r \<and>
           released r = [] \<and>
           (result r = Schedule F_bcrypt_fini
              (fini_argv
                 ((expand_round B (key_buffer password) (unat key_len) csalt ^^
                     (unat (ucast rounds :: u32) - unat start_index)) state)
                 csalt minor logr) \<or>
            (\<exists>s' m. unat start_index < unat s' \<and> unat s' < unat (ucast rounds :: u32) \<and>
               result r = Schedule F_bcrypt_expandstate
                 (expand_argv
                    ((expand_round B (key_buffer password) (unat key_len) csalt ^^
                        (unat s' - unat start_index)) state)
                    csalt password key_len rounds minor logr m s')))"
proof -
  let ?r = "ucast rounds :: u32"
  let ?k = "ucast start_index :: u32"
  let ?argv = "expand_argv state csalt password key_len rounds minor logr max_per_slice start_index"
  let ?E = "expand_round B (key_buffer password) (unat key_len) csalt"
  define e where "e = (if start_index + max_per_slice > ucast ?r then ucast ?r
                       else start_index + max_per_slice)"
  have e: "e \<le> ucast ?r" by (simp add: e_def not_less)
  have k: "unat ?k = unat start_index" using assms by (rule unat_ucast_small(1))
  have kk: "(ucast ?k :: ulong) = start_index" using assms by (rule unat_ucast_small(2))
  have lt: "unat ?k < unat ?r" using assms k by simp
  have unfold: "bcrypt_expandstate B env ?argv =
      expand_slices B env ?argv (key_buffer password) (unat key_len) csalt ?r max_per_slice
        start_index state 0 ?k e 0"
    by (simp add: bcrypt_expandstate_def expand_argv_def enif_inspect_binary_def
        enif_get_ulong_def enif_get_string_password key_buffer_def Let_def e_def)
  from expand_slices_result [OF lt e, of B env ?argv "key_buffer password" "unat key_len" csalt
      max_per_slice start_index state 0 0]
  obtain r where
    r: "expand_slices B env ?argv (key_buffer password) (unat key_len) csalt ?r max_per_slice
          start_index state 0 ?k e 0 = Some r" "released r = []"
    and d: "result r = Schedule F_bcrypt_fini
              [ErlBinary ((?E ^^ (unat ?r - unat ?k)) state), ErlBinary csalt, ?argv ! 5, ?argv ! 6] \<or>
            (\<exists>(k'::u32) m. unat ?k < unat k' \<and> unat k' < unat ?r \<and>
               result r = Schedule F_bcrypt_expandstate
                 [ErlBinary ((?E ^^ (unat k' - unat ?k)) state),
                  ErlBinary csalt, ?argv ! 2, ?argv ! 3, ?argv ! 4, ?argv ! 5, ?argv ! 6,
                  ErlULong m, ErlULong (ucast k')])"
    by blast
  from d show ?thesis
  proof
    assume "result r = Schedule F_bcrypt_fini
              [ErlBinary ((?E ^^ (unat ?r - unat ?k)) state), ErlBinary csalt, ?argv ! 5, ?argv ! 6]"
    then have "result r = Schedule F_bcrypt_fini
        (fini_argv ((?E ^^ (unat ?r - unat start_index)) state) csalt minor logr)"
      by (simp add: k fini_argv_def expand_argv_def)
    with r unfold show ?thesis by auto
  next
    assume "\<exists>(k'::u32) m. unat ?k < unat k' \<and> unat k' < unat ?r \<and>
               result r = Schedule F_bcrypt_expandstate
                 [ErlBinary ((?E ^^ (unat k' - unat ?k)) state),
                  ErlBinary csalt, ?argv ! 2, ?argv ! 3, ?argv ! 4, ?argv ! 5, ?argv ! 6,
                  ErlULong m, ErlULong (ucast k')]"
    then obtain k' :: u32 and m where
      a: "unat ?k < unat k'" and b: "unat k' < unat ?r" and
      c: "result r = Schedule F_bcrypt_expandstate
                 [ErlBinary ((?E ^^ (unat k' - unat ?k)) state),
                  ErlBinary csalt, ?argv ! 2, ?argv ! 3, ?argv ! 4, ?argv ! 5, ?argv ! 6,
                  ErlULong m, ErlULong (ucast k')]"
      by blast
    let ?s = "ucast k' :: ulong"
    have u: "unat ?s = unat k'" by (rule unat_ucast_u32)
    have c': "result r = Schedule F_bcrypt_expandstate
        (expand_argv ((?E ^^ (unat ?s - unat start_index)) state)
           csalt password key_len rounds minor logr m ?s)"
      using c by (simp add: k u expand_argv_def)
    have a': "unat start_index < unat ?s" using a k u by simp
    have b': "unat ?s < unat ?r" using b u by simp
    from r unfold a' b' c' show ?thesis by auto
  qed
qed

lemma naive_expand_compose:
  "naive_expand B key key_len csalt a (naive_expand B key key_len csalt b state)
     = naive_expand B key key_len csalt (a + b) state"
  by (simp add: naive_expand_def funpow_add)

lemma index_counts_rounds_shift:
  assumes "s0 \<le> s1" "s1 \<le> unat (ucast rounds :: u32)"
    and "index_counts_rounds B csalt password key_len rounds minor logr s1
           (naive_expand B (key_buffer password) (unat key_len) csalt (s1 - s0) state) r"
  shows "index_counts_rounds B csalt password key_len rounds minor logr s0 state r"
  using assms
  by (auto simp: index_counts_rounds_def naive_expand_compose
      split: nif_result.splits nif_fun.splits)

lemma retune_expand_argv:
  "retune f (expand_argv state csalt password key_len rounds minor logr m s)
     = expand_argv state csalt password key_len rounds minor logr (f m) s"
  by (simp add: retune_def expand_argv_def)

lemma bcrypt_fini_returns:
  "\<exists>s rel. bcrypt_fini B (fini_argv state csalt minor logr)
      = \<lparr>result = Return_string s, released = rel\<rparr>"
  by (simp add: bcrypt_fini_def fini_argv_def enif_inspect_binary_def enif_get_ulong_def Let_def)

lemma run_nif_return:
  "result r = Return_string s \<Longrightarrow> run_nif B sched tune n r = Some [r]"
  by (subst run_nif.simps) simp

lemma run_nif_fini:
  assumes "result r = Schedule F_bcrypt_fini (fini_argv state csalt minor logr)"
  shows "run_nif B sched tune n r = Some [r, bcrypt_fini B (fini_argv state csalt minor logr)]"
proof -
  obtain s rel where f: "bcrypt_fini B (fini_argv state csalt minor logr)
      = \<lparr>result = Return_string s, released = rel\<rparr>"
    using bcrypt_fini_returns by blast
  have "run_nif B sched tune n (bcrypt_fini B (fini_argv state csalt minor logr))
      = Some [bcrypt_fini B (fini_argv state csalt minor logr)]"
    by (rule run_nif_return [of _ s]) (simp add: f)
  then show ?thesis using assms by (subst run_nif.simps) simp
qed

lemma run_nif_expand:
  assumes "result r = Schedule F_bcrypt_expandstate argv"
    and "bcrypt_expandstate B (sched n) (retune (tune n) argv) = Some r'"
    and "run_nif B sched tune (Suc n) r' = Some rs"
  shows "run_nif B sched tune n r = Some (r # rs)"
  using assms by (subst run_nif.simps) simp

lemma start_indices_Cons:
  "start_indices (r # rs) =
     (case start_index_of r of None \<Rightarrow> start_indices rs | Some i \<Rightarrow> i # start_indices rs)"
  by (simp add: start_indices_def map_filter_simps split: option.splits)

lemma start_index_of_expand:
  "result r = Schedule F_bcrypt_expandstate
      (expand_argv state csalt password key_len rounds minor logr m s) \<Longrightarrow>
   start_index_of r = Some (unat s)"
  by (simp add: start_index_of_def ulong_arg_def expand_argv_def)

lemma start_index_of_fini:
  "result r = Schedule F_bcrypt_fini argv \<Longrightarrow> start_index_of r = None"
  by (simp add: start_index_of_def)

lemma start_index_of_return:
  "result r = Return_string s \<Longrightarrow> start_index_of r = None"
  by (simp add: start_index_of_def)

lemma run_nif_trace:
  fixes start_index rounds :: ulong
  assumes "unat start_index < unat (ucast rounds :: u32)"
    and "result r0 = Schedule F_bcrypt_expandstate
           (expand_argv state csalt password key_len rounds minor logr max_per_slice start_index)"
  shows "\<exists>trace. run_nif B sched tune n r0 = Some trace \<and>
           last trace = bcrypt_fini B
             (fini_argv
                (naive_expand B (key_buffer password) (unat key_len) csalt
                   (unat (ucast rounds :: u32) - unat start_index) state)
                csalt minor logr) \<and>
           (\<exists>is. start_indices trace = unat start_index # is) \<and>
           sorted_wrt (<) (start_indices trace) \<and>
           length (start_indices trace) \<le> unat (ucast rounds :: u32) - unat start_index \<and>
           list_all (index_counts_rounds B csalt password key_len rounds minor logr
                       (unat start_index) state) trace"
  using assms
proof (induction "unat (ucast rounds :: u32) - unat start_index"
    arbitrary: start_index state max_per_slice n r0 rule: less_induct)
  case less
  let ?R = "unat (ucast rounds :: u32)"
  let ?key = "key_buffer password"
  let ?kl = "unat key_len"
  let ?N = "naive_expand B ?key ?kl csalt"
  let ?ok = "index_counts_rounds B csalt password key_len rounds minor logr"
  let ?s0 = "unat start_index"
  have N: "(expand_round B ?key ?kl csalt ^^ a) x = ?N a x" for a x
    by (simp add: naive_expand_def)
  have r0_ok: "?ok ?s0 state r0"
    using less.prems
    by (simp add: index_counts_rounds_def ulong_arg_def expand_argv_def naive_expand_def)
  have i0: "start_index_of r0 = Some ?s0"
    using less.prems(2) by (rule start_index_of_expand)
  from bcrypt_expandstate_result [OF less.prems(1), of B "sched n" state csalt password key_len
      minor logr "tune n max_per_slice"]
  obtain r where
    r: "bcrypt_expandstate B (sched n)
          (expand_argv state csalt password key_len rounds minor logr (tune n max_per_slice)
             start_index) = Some r"
    and d: "result r = Schedule F_bcrypt_fini
              (fini_argv (?N (?R - ?s0) state) csalt minor logr) \<or>
            (\<exists>s' m. ?s0 < unat s' \<and> unat s' < ?R \<and>
               result r = Schedule F_bcrypt_expandstate
                 (expand_argv (?N (unat s' - ?s0) state)
                    csalt password key_len rounds minor logr m s'))"
    unfolding N by blast
  have r': "bcrypt_expandstate B (sched n)
      (retune (tune n)
         (expand_argv state csalt password key_len rounds minor logr max_per_slice start_index))
      = Some r"
    using r by (simp add: retune_expand_argv)
  from d show ?case
  proof
    assume f: "result r = Schedule F_bcrypt_fini (fini_argv (?N (?R - ?s0) state) csalt minor logr)"
    let ?f = "bcrypt_fini B (fini_argv (?N (?R - ?s0) state) csalt minor logr)"
    have t: "run_nif B sched tune n r0 = Some [r0, r, ?f]"
      using less.prems(2) r' run_nif_fini [OF f] by (rule run_nif_expand)
    obtain s rel where fr: "?f = \<lparr>result = Return_string s, released = rel\<rparr>"
      using bcrypt_fini_returns by blast
    have ix: "start_indices [r0, r, ?f] = [?s0]"
      using i0 start_index_of_fini [OF f] start_index_of_return [of ?f s]
      by (simp add: start_indices_Cons start_indices_def fr)
    have r_ok: "?ok ?s0 state r"
      using f by (simp add: index_counts_rounds_def)
    have f_ok: "?ok ?s0 state ?f"
      by (simp add: index_counts_rounds_def fr)
    have "1 \<le> ?R - ?s0" using less.prems(1) by simp
    then show ?thesis
      unfolding t using ix r0_ok r_ok f_ok by simp
  next
    assume "\<exists>s' m. ?s0 < unat s' \<and> unat s' < ?R \<and>
               result r = Schedule F_bcrypt_expandstate
                 (expand_argv (?N (unat s' - ?s0) state)
                    csalt password key_len rounds minor logr m s')"
    then obtain s' m where
      a: "?s0 < unat s'" and b: "unat s' < ?R" and
      c: "result r = Schedule F_bcrypt_expandstate
                 (expand_argv (?N (unat s' - ?s0) state)
                    csalt password key_len rounds minor logr m s')"
      by blast
    have "?R - unat s' < ?R - ?s0" using a b by simp
    from less.hyps [OF this b c, of "Suc n"]
    obtain trace "is" where
      t: "run_nif B sched tune (Suc n) r = Some trace"
      and l: "last trace = bcrypt_fini B
             (fini_argv (?N (?R - unat s') (?N (unat s' - ?s0) state)) csalt minor logr)"
      and h: "start_indices trace = unat s' # is"
      and so: "sorted_wrt (<) (start_indices trace)"
      and ln: "length (start_indices trace) \<le> ?R - unat s'"
      and ok: "list_all (?ok (unat s') (?N (unat s' - ?s0) state)) trace"
      by blast
    have t0: "run_nif B sched tune n r0 = Some (r0 # trace)"
      using less.prems(2) r' t by (rule run_nif_expand)
    have ne: "trace \<noteq> []" using h by (auto simp: start_indices_def)
    have cmp: "?N (?R - unat s') (?N (unat s' - ?s0) state) = ?N (?R - ?s0) state"
      using a b by (simp add: naive_expand_compose)
    have l0: "last (r0 # trace) = bcrypt_fini B (fini_argv (?N (?R - ?s0) state) csalt minor logr)"
      using ne l cmp by simp
    have ix: "start_indices (r0 # trace) = ?s0 # unat s' # is"
      using i0 h by (simp add: start_indices_Cons)
    have "\<forall>i \<in> set (unat s' # is). unat s' \<le> i"
      using so unfolding h by auto
    then have so0: "sorted_wrt (<) (start_indices (r0 # trace))"
      using so a unfolding ix h by auto
    have ln0: "length (start_indices (r0 # trace)) \<le> ?R - ?s0"
      using ln a b unfolding ix h by simp
    have "list_all (?ok ?s0 state) trace"
      using ok a b
      by (auto simp: list_all_iff intro: index_counts_rounds_shift [where ?s1.0 = "unat s'"])
    then have ok0: "list_all (?ok ?s0 state) (r0 # trace)" using r0_ok by simp
    show ?thesis
      unfolding t0 using l0 ix so0 ln0 ok0 by simp
  qed
qed

lemma unat_rounds_of_logr:
  fixes logr :: nat
  assumes "logr \<le> 31"
  shows "unat (ucast (2 ^ logr :: ulong) :: u32) = 2 ^ logr"
proof -
  have "(2::nat) ^ logr \<le> 2 ^ 31" using assms by (intro power_increasing) auto
  then have lt: "(2::nat) ^ logr < 2 ^ LENGTH(32)" by simp
  have c: "(ucast (2 ^ logr :: ulong) :: u32) = 2 ^ logr"
    by (rule bit_word_eqI) (auto simp: bit_simps)
  have w: "word_of_nat (2 ^ logr) = (2 ^ logr :: u32)" by simp
  show ?thesis unfolding c using w lt by (rule of_nat_inverse)
qed

lemma map_option_last_run:
  "run_nif B sched tune n r0 = Some trace \<Longrightarrow> last trace = x \<Longrightarrow>
   map_option last (run_nif B sched tune n r0) = Some x"
  by simp


text \<open>
  Claim C1. For every password, salt, minor and \<open>logr\<close> from 4 to 31, every cipher state to
  start from, every first \<^verbatim>\<open>max_per_slice\<close>, every clock and scheduler of every call
  (\<open>sched\<close>) and every choice of the \<^verbatim>\<open>max_per_slice\<close> each resumed call is given
  (\<open>tune\<close>), the run of the scheduled calls from index 0 returns and its last outcome is
  that of the unsliced loop followed by \<^verbatim>\<open>bcrypt_fini\<close>.
\<close>

theorem slicing_unobservable:
  fixes logr :: nat
  assumes "4 \<le> logr" and "logr \<le> 31"
    and "result r0 = Schedule F_bcrypt_expandstate
           (expand_argv state csalt password key_len (2 ^ logr) minor (word_of_nat logr)
              max_per_slice 0)"
  shows "map_option last (run_nif B sched tune n r0) =
         Some (naive_bcrypt B state csalt password key_len (2 ^ logr) minor (word_of_nat logr))"
proof -
  have R: "unat (ucast (2 ^ logr :: ulong) :: u32) = 2 ^ logr"
    using assms(2) by (rule unat_rounds_of_logr)
  have lt: "unat (0 :: ulong) < unat (ucast (2 ^ logr :: ulong) :: u32)"
    unfolding R by simp
  from run_nif_trace [OF lt assms(3), of B sched tune n]
  obtain trace where
    t: "run_nif B sched tune n r0 = Some trace"
    and l: "last trace = bcrypt_fini B
             (fini_argv
                (naive_expand B (key_buffer password) (unat key_len) csalt
                   (unat (ucast (2 ^ logr :: ulong) :: u32) - unat (0 :: ulong)) state)
                csalt minor (word_of_nat logr))"
    by blast
  have "last trace = naive_bcrypt B state csalt password key_len (2 ^ logr) minor (word_of_nat logr)"
    using l by (simp add: naive_bcrypt_def)
  with t show ?thesis by (rule map_option_last_run)
qed


text \<open>
  The three runs of the specification, for 16 rounds: one unbroken slice (the scheduler
  never asks to yield), slices of 3, 5 and 8 rounds, and sixteen slices of one round.
\<close>

theorem slicing_unobservable_witness:
  "map_option last (run_nif demo_blf (\<lambda>n. demo_sched False) (\<lambda>n m. m) 0 (demo_start 25)) =
     Some (naive_bcrypt demo_blf [1, 2, 3, 4] (replicate 16 0) (map byte_of_char ''abc'') 4 16
             (ucast (byte_of_char CHR ''b'')) 4) \<and>
   map_option last (run_nif demo_blf (\<lambda>n. demo_sched True) (\<lambda>n m. [3, 5, 8] ! n) 0 (demo_start 25)) =
     Some (naive_bcrypt demo_blf [1, 2, 3, 4] (replicate 16 0) (map byte_of_char ''abc'') 4 16
             (ucast (byte_of_char CHR ''b'')) 4) \<and>
   map_option last (run_nif demo_blf (\<lambda>n. demo_sched True) (\<lambda>n m. 1) 0 (demo_start 25)) =
     Some (naive_bcrypt demo_blf [1, 2, 3, 4] (replicate 16 0) (map byte_of_char ''abc'') 4 16
             (ucast (byte_of_char CHR ''b'')) 4)"
proof -
  have a: "(4::nat) \<le> 4" "(4::nat) \<le> 31" by simp_all
  have r: "result (demo_start 25) = Schedule F_bcrypt_expandstate
      (expand_argv [1, 2, 3, 4] (replicate 16 0) (map byte_of_char ''abc'') 4 (2 ^ 4)
         (ucast (byte_of_char CHR ''b'')) (word_of_nat 4) 25 0)"
    by (simp add: demo_start_def)
  note t = slicing_unobservable [OF a r, of demo_blf]
  have e: "naive_bcrypt demo_blf [1, 2, 3, 4] (replicate 16 0) (map byte_of_char ''abc'') 4 (2 ^ 4)
             (ucast (byte_of_char CHR ''b'')) (word_of_nat 4)
         = naive_bcrypt demo_blf [1, 2, 3, 4] (replicate 16 0) (map byte_of_char ''abc'') 4 16
             (ucast (byte_of_char CHR ''b'')) 4"
    by simp
  show ?thesis
    using t [of "\<lambda>n. demo_sched False" "\<lambda>n m. m" 0]
      t [of "\<lambda>n. demo_sched True" "\<lambda>n m. [3, 5, 8] ! n" 0]
      t [of "\<lambda>n. demo_sched True" "\<lambda>n m. 1" 0]
    unfolding e by (intro conjI)
qed

lemma bcrypt_expandstate_progress:
  fixes start_index rounds :: ulong
  assumes "unat start_index < unat (ucast rounds :: u32)"
  shows "\<exists>r. bcrypt_expandstate B env
                (expand_argv state csalt password key_len rounds minor logr max_per_slice start_index)
              = Some r \<and>
           (\<exists>f argv. result r = Schedule f argv) \<and>
           index_counts_rounds B csalt password key_len rounds minor logr (unat start_index + 1)
             (expand_round B (key_buffer password) (unat key_len) csalt state) r"
proof -
  let ?R = "unat (ucast rounds :: u32)"
  let ?E = "expand_round B (key_buffer password) (unat key_len) csalt"
  let ?s0 = "unat start_index"
  from bcrypt_expandstate_result [OF assms, of B env state csalt password key_len minor logr
      max_per_slice]
  obtain r where
    r: "bcrypt_expandstate B env
          (expand_argv state csalt password key_len rounds minor logr max_per_slice start_index)
        = Some r"
    and d: "result r = Schedule F_bcrypt_fini
              (fini_argv ((?E ^^ (?R - ?s0)) state) csalt minor logr) \<or>
            (\<exists>s' m. ?s0 < unat s' \<and> unat s' < ?R \<and>
               result r = Schedule F_bcrypt_expandstate
                 (expand_argv ((?E ^^ (unat s' - ?s0)) state)
                    csalt password key_len rounds minor logr m s'))"
    by blast
  from d show ?thesis
  proof
    assume f: "result r = Schedule F_bcrypt_fini
              (fini_argv ((?E ^^ (?R - ?s0)) state) csalt minor logr)"
    have "?R - ?s0 = Suc (?R - (?s0 + 1))" using assms by simp
    then have "(?E ^^ (?R - ?s0)) state = (?E ^^ (?R - (?s0 + 1))) (?E state)"
      by (simp only: funpow_Suc_apply)
    then have "index_counts_rounds B csalt password key_len rounds minor logr (?s0 + 1) (?E state) r"
      using f by (simp add: index_counts_rounds_def naive_expand_def)
    with r f show ?thesis by blast
  next
    assume "\<exists>s' m. ?s0 < unat s' \<and> unat s' < ?R \<and>
               result r = Schedule F_bcrypt_expandstate
                 (expand_argv ((?E ^^ (unat s' - ?s0)) state)
                    csalt password key_len rounds minor logr m s')"
    then obtain s' m where
      a: "?s0 < unat s'" and b: "unat s' < ?R" and
      c: "result r = Schedule F_bcrypt_expandstate
                 (expand_argv ((?E ^^ (unat s' - ?s0)) state)
                    csalt password key_len rounds minor logr m s')"
      by blast
    have "unat s' - ?s0 = Suc (unat s' - (?s0 + 1))" using a by simp
    then have "(?E ^^ (unat s' - ?s0)) state = (?E ^^ (unat s' - (?s0 + 1))) (?E state)"
      by (simp only: funpow_Suc_apply)
    then have "index_counts_rounds B csalt password key_len rounds minor logr (?s0 + 1) (?E state) r"
      using a b c by (simp add: index_counts_rounds_def naive_expand_def ulong_arg_def expand_argv_def)
    with r c show ?thesis by blast
  qed
qed


lemma enif_get_string_is_string:
  "enif_get_string t n = Some key \<Longrightarrow> \<exists>password. t = ErlString password"
  by (cases t) (simp_all add: enif_get_string_def)

lemma ucast_u8_ulong: "(ucast (w :: u8) :: ulong) = word_of_nat (unat w)"
  by simp

lemma bcrypt_schedules:
  assumes "result (bcrypt B heap argv) \<noteq> Badarg"
  shows "\<exists>state csalt password key_len minor (logr::nat). 4 \<le> logr \<and> logr \<le> 31 \<and>
           bcrypt B heap argv =
             \<lparr>result = Schedule F_bcrypt_expandstate
                (expand_argv state csalt password key_len (2 ^ logr) minor (word_of_nat logr) 25 0),
              released = []\<rparr>"
proof -
  from bcrypt_scheduled [OF assms]
  obtain key saltbuf state csalt where
    k: "enif_get_string (argv ! 0) 1024 = Some key"
    and r: "4 \<le> (word_of_int (atoi (drop 4 saltbuf)) :: u8)"
      "(word_of_int (atoi (drop 4 saltbuf)) :: u8) \<le> 31"
    and eq: "bcrypt B heap argv =
        \<lparr>result = Schedule F_bcrypt_expandstate
           [ErlBinary state, ErlBinary csalt, argv ! 0,
            ErlULong (word_of_nat
              (if c_at saltbuf 2 = byte_of_char CHR ''a''
               then unat (word_of_nat (strlen key + 1) :: u8)
               else min (strlen key) 72 + 1)),
            ErlULong (ucast (push_bit (unat (word_of_int (atoi (drop 4 saltbuf)) :: u8)) 1 :: u32)),
            ErlULong (ucast (c_at saltbuf 2)),
            ErlULong (ucast (word_of_int (atoi (drop 4 saltbuf)) :: u8)),
            ErlULong 25, ErlULong 0],
         released = []\<rparr>"
    by blast
  define w where "w = (word_of_int (atoi (drop 4 saltbuf)) :: u8)"
  define logr where "logr = unat w"
  obtain password where p: "argv ! 0 = ErlString password"
    using enif_get_string_is_string [OF k] by blast
  have lo: "4 \<le> logr" using r(1) unfolding w_def[symmetric] logr_def
    by (simp add: word_le_nat_alt)
  have hi: "logr \<le> 31" using r(2) unfolding w_def[symmetric] logr_def
    by (simp add: word_le_nat_alt)
  have rounds: "(ucast (push_bit logr 1 :: u32) :: ulong) = 2 ^ logr"
    using hi by (intro ucast_rounds) simp
  have lg: "(ucast w :: ulong) = word_of_nat logr"
    unfolding logr_def by (rule ucast_u8_ulong)
  have "bcrypt B heap argv =
      \<lparr>result = Schedule F_bcrypt_expandstate
         (expand_argv state csalt password
            (word_of_nat
              (if c_at saltbuf 2 = byte_of_char CHR ''a''
               then unat (word_of_nat (strlen key + 1) :: u8)
               else min (strlen key) 72 + 1))
            (2 ^ logr) (ucast (c_at saltbuf 2)) (word_of_nat logr) 25 0),
       released = []\<rparr>"
    unfolding eq w_def[symmetric] logr_def[symmetric] rounds lg p expand_argv_def by (rule refl)
  with lo hi show ?thesis by blast
qed

lemma unat_ulong_rounds:
  fixes logr :: nat
  assumes "logr \<le> 31"
  shows "unat (2 ^ logr :: ulong) = 2 ^ logr"
proof -
  have "(2::nat) ^ logr \<le> 2 ^ 31" using assms by (intro power_increasing) auto
  then have lt: "(2::nat) ^ logr < 2 ^ LENGTH(64)" by simp
  have w: "word_of_nat (2 ^ logr) = (2 ^ logr :: ulong)" by simp
  show ?thesis using w lt by (rule of_nat_inverse)
qed


text \<open>
  Claim C10. A call of \<^verbatim>\<open>bcrypt_expandstate\<close> with \<open>start_index\<close> below \<open>rounds\<close> returns,
  whatever \<^verbatim>\<open>max_per_slice\<close> it is given (0 included), and what it schedules has run the
  expansion pair at least once: its index is at least \<open>start_index + 1\<close>, and its state is
  the state after one round, advanced by the rounds the index counts beyond that. Hence a
  run from \<open>start_index\<close> returns a string after at most \<open>rounds - start_index\<close> calls of
  \<^verbatim>\<open>bcrypt_expandstate\<close>.
\<close>

theorem forward_progress:
  fixes start_index rounds :: ulong
  assumes "unat start_index < unat (ucast rounds :: u32)"
    and "result r0 = Schedule F_bcrypt_expandstate
           (expand_argv state csalt password key_len rounds minor logr max_per_slice start_index)"
  shows "(\<exists>r. bcrypt_expandstate B env
                (expand_argv state csalt password key_len rounds minor logr max_per_slice start_index)
              = Some r \<and>
            (\<exists>f argv. result r = Schedule f argv) \<and>
            index_counts_rounds B csalt password key_len rounds minor logr (unat start_index + 1)
              (expand_round B (key_buffer password) (unat key_len) csalt state) r) \<and>
         (\<exists>trace s. run_nif B sched tune n r0 = Some trace \<and>
            length (start_indices trace) \<le> unat (ucast rounds :: u32) - unat start_index \<and>
            result (last trace) = Return_string s)"
proof -
  from run_nif_trace [OF assms, of B sched tune n]
  obtain trace where
    t: "run_nif B sched tune n r0 = Some trace"
    and l: "last trace = bcrypt_fini B
             (fini_argv
                (naive_expand B (key_buffer password) (unat key_len) csalt
                   (unat (ucast rounds :: u32) - unat start_index) state)
                csalt minor logr)"
    and n: "length (start_indices trace) \<le> unat (ucast rounds :: u32) - unat start_index"
    by blast
  obtain s rel where "last trace = \<lparr>result = Return_string s, released = rel\<rparr>"
    unfolding l using bcrypt_fini_returns by blast
  then have "result (last trace) = Return_string s" by simp
  with t n have "\<exists>trace s. run_nif B sched tune n r0 = Some trace \<and>
      length (start_indices trace) \<le> unat (ucast rounds :: u32) - unat start_index \<and>
      result (last trace) = Return_string s"
    by blast
  with bcrypt_expandstate_progress [OF assms(1)] show ?thesis by blast
qed


theorem forward_progress_witness:
  "(\<exists>r. bcrypt_expandstate demo_blf (demo_sched True)
          (expand_argv [1, 2, 3, 4] (replicate 16 0) (map byte_of_char ''abc'') 4 16
             (ucast (byte_of_char CHR ''b'')) 4 0 0) = Some r \<and>
        index_counts_rounds demo_blf (replicate 16 0) (map byte_of_char ''abc'') 4 16
          (ucast (byte_of_char CHR ''b'')) 4 1
          (expand_round demo_blf (key_buffer (map byte_of_char ''abc'')) 4 (replicate 16 0)
             [1, 2, 3, 4]) r) \<and>
   (\<exists>trace s. run_nif demo_blf (\<lambda>n. demo_sched True) (\<lambda>n m. 0) 0 (demo_start 0) = Some trace \<and>
        length (start_indices trace) \<le> 16 \<and> result (last trace) = Return_string s)"
proof -
  have a: "unat (0 :: ulong) < unat (ucast (16 :: ulong) :: u32)" by simp
  have r: "result (demo_start 0) = Schedule F_bcrypt_expandstate
      (expand_argv [1, 2, 3, 4] (replicate 16 0) (map byte_of_char ''abc'') 4 16
         (ucast (byte_of_char CHR ''b'')) 4 0 0)"
    by (simp add: demo_start_def)
  from forward_progress [OF a r, of demo_blf "demo_sched True" "\<lambda>n. demo_sched True" "\<lambda>n m. 0" 0]
  show ?thesis by simp blast
qed

lemma sorted_lt_Cons2:
  "(a::nat) < b \<Longrightarrow> sorted_wrt (<) (b # xs) \<Longrightarrow> sorted_wrt (<) (a # b # xs)"
  by auto

lemma slice_indices_result:
  fixes k rounds :: u32
  assumes "unat k < unat rounds" "end' \<le> ucast rounds"
  shows "\<exists>ks r. slice_indices B env key key_len csalt rounds max_per_slice state total' k end' j
                  = Some ks \<and>
           expand_slices B env argv key key_len csalt rounds max_per_slice start_index
                state total' k end' j = Some r \<and>
           ks \<noteq> [] \<and> sorted_wrt (<) (unat k # map unat ks) \<and> unat (last ks) \<le> unat rounds \<and>
           (if unat (last ks) = unat rounds then finalizing r
            else start_index_of r = Some (unat (last ks)))"
  using assms
proof (induction "unat rounds - unat k" arbitrary: k state total' end' j rule: less_induct)
  case less
  let ?E = "expand_round B key key_len csalt"
  obtain k1 where
    dw: "expand_do_while B state key key_len csalt k end' =
           Some ((?E ^^ (unat k1 - unat k)) state, k1)"
    and m: "unat k1 = max (unat k + 1) (unat end')"
    using expand_do_while_result [OF refl less.prems] by blast
  have le: "unat end' \<le> unat rounds" using less.prems(2) by (simp add: ucast_le_iff)
  have k1: "unat k < unat k1" "unat k1 \<le> unat rounds" using m le less.prems(1) by auto
  show ?case
  proof (cases "k1 = rounds")
    case True
    have a: "slice_indices B env key key_len csalt rounds max_per_slice state total' k end' j
          = Some [k1]"
      using True by (subst slice_indices.simps) (simp add: dw Let_def)
    have b: "expand_slices B env argv key key_len csalt rounds max_per_slice start_index
              state total' k end' j =
          Some \<lparr>result = Schedule F_bcrypt_fini
                 [ErlBinary ((?E ^^ (unat k1 - unat k)) state), ErlBinary csalt,
                  argv ! 5, argv ! 6],
                released = []\<rparr>"
      using True by (subst expand_slices.simps) (simp add: dw Let_def)
    show ?thesis unfolding a b using True k1 by (simp add: finalizing_def)
  next
    case False
    then have lt: "unat k1 < unat rounds" using k1(2) by (simp add: unat_eq_rounds)
    obtain pct t1 where
      cp: "calc_percent total' (gettimeofday env (2 * j)) (gettimeofday env (Suc (2 * j))) = (pct, t1)"
      by force
    show ?thesis
    proof (cases "enif_consume_timeslice env j pct")
      case True
      have a: "slice_indices B env key key_len csalt rounds max_per_slice state total' k end' j
          = Some [k1]"
        using True \<open>k1 \<noteq> rounds\<close> by (subst slice_indices.simps) (simp add: dw Let_def cp)
      have b: "expand_slices B env argv key key_len csalt rounds max_per_slice start_index
              state total' k end' j = Some \<lparr>result = Schedule F_bcrypt_expandstate
                 [ErlBinary ((?E ^^ (unat k1 - unat k)) state), ErlBinary csalt,
                  argv ! 2, argv ! 3, argv ! 4, argv ! 5, argv ! 6,
                  ErlULong (adjust_max_per_slice (int_of_ulong max_per_slice) t1 k1 start_index),
                  ErlULong (ucast k1)],
                released = []\<rparr>"
        using True \<open>k1 \<noteq> rounds\<close>
        by (subst expand_slices.simps) (simp add: dw Let_def cp)
      show ?thesis unfolding a b using lt k1
        by (simp add: start_index_of_def ulong_arg_def unat_ucast_u32)
    next
      case no: False
      define e2 where "e2 = (if end' + max_per_slice > ucast rounds then ucast rounds
                             else end' + max_per_slice)"
      have e2: "e2 \<le> ucast rounds" by (simp add: e2_def not_less)
      have "unat rounds - unat k1 < unat rounds - unat k" using k1 lt by simp
      from less.hyps [OF this lt e2, of "(?E ^^ (unat k1 - unat k)) state" t1 "j + 1"]
      obtain ks r where
        s: "slice_indices B env key key_len csalt rounds max_per_slice
              ((?E ^^ (unat k1 - unat k)) state) t1 k1 e2 (j + 1) = Some ks"
        and r: "expand_slices B env argv key key_len csalt rounds max_per_slice start_index
              ((?E ^^ (unat k1 - unat k)) state) t1 k1 e2 (j + 1) = Some r"
        and ne: "ks \<noteq> []"
        and so: "sorted_wrt (<) (unat k1 # map unat ks)"
        and ub: "unat (last ks) \<le> unat rounds"
        and fi: "if unat (last ks) = unat rounds then finalizing r
                 else start_index_of r = Some (unat (last ks))"
        by blast
      have a: "slice_indices B env key key_len csalt rounds max_per_slice state total' k end' j
          = Some (k1 # ks)"
        using no \<open>k1 \<noteq> rounds\<close> s
        by (subst slice_indices.simps) (simp add: dw Let_def cp e2_def)
      have b: "expand_slices B env argv key key_len csalt rounds max_per_slice start_index
              state total' k end' j = Some r"
        using no \<open>k1 \<noteq> rounds\<close> r
        by (subst expand_slices.simps) (simp add: dw Let_def cp e2_def)
      have so': "sorted_wrt (<) (unat k # map unat (k1 # ks))"
        using sorted_lt_Cons2 [OF k1(1) so] by simp
      have la: "last (k1 # ks) = last ks" using ne by simp
      have "k1 # ks \<noteq> []" by simp
      moreover have "unat (last (k1 # ks)) \<le> unat rounds" unfolding la by (rule ub)
      moreover have "if unat (last (k1 # ks)) = unat rounds then finalizing r
            else start_index_of r = Some (unat (last (k1 # ks)))" unfolding la by (rule fi)
      ultimately show ?thesis using a b so' by blast
    qed
  qed
qed

lemma expandstate_indices_expand_argv:
  "expandstate_indices B env
     (expand_argv state csalt password key_len rounds minor logr max_per_slice start_index) =
   slice_indices B env (key_buffer password) (unat key_len) csalt (ucast rounds) max_per_slice
     state 0 (ucast start_index)
     (if start_index + max_per_slice > ucast (ucast rounds :: u32) then ucast (ucast rounds :: u32)
      else start_index + max_per_slice) 0"
  by (simp add: expandstate_indices_def expand_argv_def enif_inspect_binary_def
      enif_get_ulong_def enif_get_string_password key_buffer_def Let_def)

lemma expandstate_indices_result:
  fixes start_index rounds :: ulong
  assumes "unat start_index < unat (ucast rounds :: u32)"
  shows "\<exists>ks r. expandstate_indices B env
                (expand_argv state csalt password key_len rounds minor logr max_per_slice start_index)
              = Some ks \<and>
           bcrypt_expandstate B env
                (expand_argv state csalt password key_len rounds minor logr max_per_slice start_index)
              = Some r \<and>
           ks \<noteq> [] \<and> sorted_wrt (<) (unat start_index # map unat ks) \<and>
           unat (last ks) \<le> unat (ucast rounds :: u32) \<and>
           (if unat (last ks) = unat (ucast rounds :: u32) then finalizing r
            else start_index_of r = Some (unat (last ks)))"
proof -
  let ?r = "ucast rounds :: u32"
  let ?k = "ucast start_index :: u32"
  let ?argv = "expand_argv state csalt password key_len rounds minor logr max_per_slice start_index"
  define e where "e = (if start_index + max_per_slice > ucast ?r then ucast ?r
                       else start_index + max_per_slice)"
  have e: "e \<le> ucast ?r" by (simp add: e_def not_less)
  have k: "unat ?k = unat start_index" using assms by (rule unat_ucast_small(1))
  have lt: "unat ?k < unat ?r" using assms k by simp
  have u1: "bcrypt_expandstate B env ?argv =
      expand_slices B env ?argv (key_buffer password) (unat key_len) csalt ?r max_per_slice
        start_index state 0 ?k e 0"
    by (simp add: bcrypt_expandstate_def expand_argv_def enif_inspect_binary_def
        enif_get_ulong_def enif_get_string_password key_buffer_def Let_def e_def)
  have u2: "expandstate_indices B env ?argv =
      slice_indices B env (key_buffer password) (unat key_len) csalt ?r max_per_slice
        state 0 ?k e 0"
    by (simp add: expandstate_indices_def expand_argv_def enif_inspect_binary_def
        enif_get_ulong_def enif_get_string_password key_buffer_def Let_def e_def)
  from slice_indices_result [OF lt e, of B env "key_buffer password" "unat key_len" csalt
      max_per_slice state 0 0 ?argv start_index]
  show ?thesis unfolding u1 u2 k .
qed

lemma run_nif_hd: "run_nif B sched tune n r = Some t \<Longrightarrow> \<exists>rs. t = r # rs"
  by (subst (asm) run_nif.simps)
    (auto split: nif_result.splits nif_fun.splits option.splits simp: bind_eq_Some_conv)

lemma finalizing_fini: "result r = Schedule F_bcrypt_fini a \<Longrightarrow> finalizing r"
  by (simp add: finalizing_def)

lemma finalizing_expand: "result r = Schedule F_bcrypt_expandstate a \<Longrightarrow> \<not> finalizing r"
  by (simp add: finalizing_def)

lemma run_nif_calls:
  fixes start_index rounds :: ulong
  assumes "unat start_index < unat (ucast rounds :: u32)"
    and "result r0 = Schedule F_bcrypt_expandstate
           (expand_argv
              (naive_expand B (key_buffer password) (unat key_len) csalt (unat start_index) state)
              csalt password key_len rounds minor logr max_per_slice start_index)"
  shows "\<exists>trace. run_nif B sched tune n r0 = Some trace \<and>
           run_counts_rounds B csalt password key_len rounds minor logr state trace \<and>
           (\<forall>i a. i < length trace \<and> result (trace ! i) = Schedule F_bcrypt_expandstate a \<longrightarrow>
              Suc i < length trace \<and>
              bcrypt_expandstate B (sched (n + i)) (retune (tune (n + i)) a) = Some (trace ! Suc i) \<and>
              (\<exists>ks. expandstate_indices B (sched (n + i)) (retune (tune (n + i)) a) = Some ks \<and>
                 ks \<noteq> [] \<and> sorted_wrt (<) (ulong_arg a 8 # map unat ks) \<and>
                 unat (last ks) \<le> unat (ucast rounds :: u32) \<and>
                 (finalizing (trace ! Suc i) \<longleftrightarrow> unat (last ks) = unat (ucast rounds :: u32)) \<and>
                 (unat (last ks) < unat (ucast rounds :: u32) \<longrightarrow>
                    start_index_of (trace ! Suc i) = Some (unat (last ks)))))"
  using assms
proof (induction "unat (ucast rounds :: u32) - unat start_index"
    arbitrary: start_index max_per_slice n r0 rule: less_induct)
  case less
  let ?R = "unat (ucast rounds :: u32)"
  let ?key = "key_buffer password"
  let ?kl = "unat key_len"
  let ?N = "naive_expand B ?key ?kl csalt"
  let ?s0 = "unat start_index"
  let ?a0 = "expand_argv (?N ?s0 state) csalt password key_len rounds minor logr
               max_per_slice start_index"
  let ?a1 = "expand_argv (?N ?s0 state) csalt password key_len rounds minor logr
               (tune n max_per_slice) start_index"
  define C where "C = (\<lambda>n a r'.
      bcrypt_expandstate B (sched n) (retune (tune n) a) = Some r' \<and>
      (\<exists>ks. expandstate_indices B (sched n) (retune (tune n) a) = Some ks \<and>
         ks \<noteq> [] \<and> sorted_wrt (<) (ulong_arg a 8 # map unat ks) \<and>
         unat (last ks) \<le> ?R \<and>
         (finalizing r' \<longleftrightarrow> unat (last ks) = ?R) \<and>
         (unat (last ks) < ?R \<longrightarrow> start_index_of r' = Some (unat (last ks)))))"
  have N: "(expand_round B ?key ?kl csalt ^^ a) x = ?N a x" for a x
    by (simp add: naive_expand_def)
  have rt: "retune (tune n) ?a0 = ?a1" by (rule retune_expand_argv)
  have ix: "ulong_arg ?a0 8 = ?s0" by (simp add: ulong_arg_def expand_argv_def)
  have head: "ulong_arg ?a0 8 < ?R \<and>
      ?a0 = expand_argv (?N (ulong_arg ?a0 8) state) csalt password key_len rounds minor logr
              (word_of_nat (ulong_arg ?a0 7)) (word_of_nat (ulong_arg ?a0 8))"
    using less.prems(1) by (simp add: ulong_arg_def expand_argv_def)
  from bcrypt_expandstate_result [OF less.prems(1), of B "sched n" "?N ?s0 state" csalt password
      key_len minor logr "tune n max_per_slice"]
  obtain r where
    r: "bcrypt_expandstate B (sched n) ?a1 = Some r"
    and d: "result r = Schedule F_bcrypt_fini
              (fini_argv (?N (?R - ?s0) (?N ?s0 state)) csalt minor logr) \<or>
            (\<exists>s' m. ?s0 < unat s' \<and> unat s' < ?R \<and>
               result r = Schedule F_bcrypt_expandstate
                 (expand_argv (?N (unat s' - ?s0) (?N ?s0 state))
                    csalt password key_len rounds minor logr m s'))"
    unfolding N by blast
  from expandstate_indices_result [OF less.prems(1), of B "sched n" "?N ?s0 state" csalt password
      key_len minor logr "tune n max_per_slice"] r
  obtain ks where
    ks: "expandstate_indices B (sched n) ?a1 = Some ks" "ks \<noteq> []"
      "sorted_wrt (<) (?s0 # map unat ks)" "unat (last ks) \<le> ?R"
    and fi: "if unat (last ks) = ?R then finalizing r
             else start_index_of r = Some (unat (last ks))"
    by auto
  have r': "bcrypt_expandstate B (sched n) (retune (tune n) ?a0) = Some r"
    using r by (simp only: rt)
  from d show ?case
  proof
    assume f0: "result r = Schedule F_bcrypt_fini
        (fini_argv (?N (?R - ?s0) (?N ?s0 state)) csalt minor logr)"
    have cmp: "?N (?R - ?s0) (?N ?s0 state) = ?N ?R state"
      using less.prems(1) by (simp add: naive_expand_compose)
    have f: "result r = Schedule F_bcrypt_fini (fini_argv (?N ?R state) csalt minor logr)"
      using f0 unfolding cmp .
    let ?f = "bcrypt_fini B (fini_argv (?N ?R state) csalt minor logr)"
    have t: "run_nif B sched tune n r0 = Some [r0, r, ?f]"
      using less.prems(2) r' run_nif_fini [OF f] by (rule run_nif_expand)
    obtain s rel where fr: "?f = \<lparr>result = Return_string s, released = rel\<rparr>"
      using bcrypt_fini_returns by blast
    have sh: "run_counts_rounds B csalt password key_len rounds minor logr state [r0, r, ?f]"
      using head by (simp add: less.prems(2) f)
    have la: "unat (last ks) = ?R"
      using fi start_index_of_fini [OF f] by (auto split: if_splits)
    have c0: "C n ?a0 r"
      unfolding C_def using r' ks la finalizing_fini [OF f] by (simp only: rt ix) simp
    have "Suc i < length [r0, r, ?f] \<and> C (n + i) a ([r0, r, ?f] ! Suc i)"
      if "i < length [r0, r, ?f]" "result ([r0, r, ?f] ! i) = Schedule F_bcrypt_expandstate a"
      for i a
    proof -
      have "i = 0 \<or> i = 1 \<or> i = 2" using that(1) by auto
      then show ?thesis
      proof (elim disjE)
        assume i: "i = 0"
        then have "a = ?a0" using that(2) less.prems(2) by simp
        then show ?thesis using c0 i by simp
      next
        assume "i = 1"
        then show ?thesis using that(2) f by simp
      next
        assume "i = 2"
        then show ?thesis using that(2) fr by simp
      qed
    qed
    then show ?thesis unfolding t C_def using sh by blast
  next
    assume "\<exists>s' m. ?s0 < unat s' \<and> unat s' < ?R \<and>
               result r = Schedule F_bcrypt_expandstate
                 (expand_argv (?N (unat s' - ?s0) (?N ?s0 state))
                    csalt password key_len rounds minor logr m s')"
    then obtain s' m where
      a: "?s0 < unat s'" and b: "unat s' < ?R" and
      c0: "result r = Schedule F_bcrypt_expandstate
                 (expand_argv (?N (unat s' - ?s0) (?N ?s0 state))
                    csalt password key_len rounds minor logr m s')"
      by blast
    have cmp: "?N (unat s' - ?s0) (?N ?s0 state) = ?N (unat s') state"
      using a by (simp add: naive_expand_compose)
    have c: "result r = Schedule F_bcrypt_expandstate
                 (expand_argv (?N (unat s') state) csalt password key_len rounds minor logr m s')"
      using c0 unfolding cmp .
    have "?R - unat s' < ?R - ?s0" using a b by simp
    from less.hyps [OF this b c, of "Suc n"]
    obtain trace where
      t: "run_nif B sched tune (Suc n) r = Some trace"
      and sh: "run_counts_rounds B csalt password key_len rounds minor logr state trace"
      and call: "\<And>i a. i < length trace \<Longrightarrow>
                  result (trace ! i) = Schedule F_bcrypt_expandstate a \<Longrightarrow>
                  Suc i < length trace \<and> C (Suc n + i) a (trace ! Suc i)"
      unfolding C_def by blast
    obtain rs where tr: "trace = r # rs" using run_nif_hd [OF t] by blast
    have t0: "run_nif B sched tune n r0 = Some (r0 # trace)"
      using less.prems(2) r' t by (rule run_nif_expand)
    have sh0: "run_counts_rounds B csalt password key_len rounds minor logr state (r0 # trace)"
      using head sh by (simp add: less.prems(2))
    have nf: "\<not> finalizing r" using c by (rule finalizing_expand)
    have si: "start_index_of r = Some (unat s')" using c by (rule start_index_of_expand)
    have la: "unat (last ks) \<noteq> ?R" "start_index_of r = Some (unat (last ks))"
      using fi nf by (auto split: if_splits)
    have c1: "C n ?a0 r"
      unfolding C_def using r' ks la nf by (simp only: rt ix) simp
    have "Suc i < length (r0 # trace) \<and> C (n + i) a ((r0 # trace) ! Suc i)"
      if "i < length (r0 # trace)" "result ((r0 # trace) ! i) = Schedule F_bcrypt_expandstate a"
      for i a
    proof (cases i)
      case 0
      then have "a = ?a0" using that(2) less.prems(2) by simp
      then show ?thesis using c1 0 tr by simp
    next
      case (Suc i')
      then have "i' < length trace" "result (trace ! i') = Schedule F_bcrypt_expandstate a"
        using that by simp_all
      from call [OF this] show ?thesis using Suc by simp
    qed
    then show ?thesis unfolding t0 C_def using sh0 by blast
  qed
qed


text \<open>
  Claim C8. In every run that \<^verbatim>\<open>bcrypt\<close> starts, \<open>0 < rounds \<le> 2 ^ 31\<close>, and the run
  returns: it consists of \<^verbatim>\<open>bcrypt\<close>'s outcome and the outcomes of the calls that follow,
  every one of them a scheduled call until \<^verbatim>\<open>bcrypt_fini\<close> returns its string. The
  indices of the scheduled calls of \<^verbatim>\<open>bcrypt_expandstate\<close> increase strictly from call to
  call, each is below \<open>rounds\<close> and comes with the state after exactly that many rounds, and
  \<^verbatim>\<open>bcrypt_fini\<close> is scheduled with the state after exactly \<open>rounds\<close> rounds. Inside each
  call of the run, the values of \<^verbatim>\<open>k\<close> at the ends of its slices increase strictly from
  the \<open>start_index\<close> of the call and stay at most \<open>rounds\<close>; the call schedules
  \<^verbatim>\<open>bcrypt_fini\<close> exactly when the last of them equals \<open>rounds\<close>, and otherwise schedules
  itself again with that value as the next \<open>start_index\<close>. Every run of the inner loop
  from an index below \<open>rounds\<close> to a boundary of at most \<open>rounds\<close> (the engine clamps every
  boundary to \<open>rounds\<close>) ends at a larger index of at most \<open>rounds\<close>.
\<close>

theorem index_invariant:
  assumes "result (bcrypt B heap argv) \<noteq> Badarg"
  shows "\<exists>state csalt password key_len rounds minor logr trace.
     scheduled_argv (bcrypt B heap argv)
       = expand_argv state csalt password key_len rounds minor logr 25 0 \<and>
     0 < unat rounds \<and> unat rounds \<le> 2 ^ 31 \<and> unat (ucast rounds :: u32) = unat rounds \<and>
     bcrypt_nif B heap sched tune argv = Some trace \<and>
     hd trace = bcrypt B heap argv \<and>
     run_counts_rounds B csalt password key_len rounds minor logr state trace \<and>
     sorted_wrt (<) (start_indices trace) \<and>
     (\<exists>s. result (last trace) = Return_string s) \<and>
     (\<forall>i a. i < length trace \<and> result (trace ! i) = Schedule F_bcrypt_expandstate a \<longrightarrow>
        Suc i < length trace \<and>
        bcrypt_expandstate B (sched i) (retune (tune i) a) = Some (trace ! Suc i) \<and>
        (\<exists>ks. expandstate_indices B (sched i) (retune (tune i) a) = Some ks \<and>
           ks \<noteq> [] \<and> sorted_wrt (<) (ulong_arg a 8 # map unat ks) \<and>
           unat (last ks) \<le> unat rounds \<and>
           (finalizing (trace ! Suc i) \<longleftrightarrow> unat (last ks) = unat rounds) \<and>
           (unat (last ks) < unat rounds \<longrightarrow>
              start_index_of (trace ! Suc i) = Some (unat (last ks))))) \<and>
     (\<forall>st (k::u32) end'. unat k < unat rounds \<and> unat end' \<le> unat rounds \<longrightarrow>
        (\<exists>st' k'. expand_do_while B st (key_buffer password) (unat key_len) csalt k end'
                     = Some (st', k') \<and>
                   unat k < unat k' \<and> unat k' \<le> unat rounds))"
proof -
  from bcrypt_schedules [OF assms]
  obtain state csalt password key_len minor and logr :: nat where
    lo: "4 \<le> logr" and hi: "logr \<le> 31" and
    eq: "bcrypt B heap argv =
           \<lparr>result = Schedule F_bcrypt_expandstate
              (expand_argv state csalt password key_len (2 ^ logr) minor (word_of_nat logr) 25 0),
            released = []\<rparr>"
    by blast
  let ?rounds = "2 ^ logr :: ulong"
  let ?r32 = "ucast ?rounds :: u32"
  have R: "unat ?r32 = 2 ^ logr" using hi by (rule unat_rounds_of_logr)
  have U: "unat ?rounds = 2 ^ logr" using hi by (rule unat_ulong_rounds)
  have RU: "unat ?r32 = unat ?rounds" unfolding R U by (rule refl)
  have pos: "0 < unat ?rounds" unfolding U by simp
  have "(2::nat) ^ logr \<le> 2 ^ 31" using hi by (intro power_increasing) auto
  then have le: "unat ?rounds \<le> 2 ^ 31" unfolding U .
  have sa: "scheduled_argv (bcrypt B heap argv)
      = expand_argv state csalt password key_len ?rounds minor (word_of_nat logr) 25 0"
    by (simp add: eq scheduled_argv_def)
  have lt: "unat (0 :: ulong) < unat ?r32" unfolding R by simp
  have res: "result (bcrypt B heap argv) = Schedule F_bcrypt_expandstate
      (expand_argv state csalt password key_len ?rounds minor (word_of_nat logr) 25 0)"
    by (simp add: eq)
  have res0: "result (bcrypt B heap argv) = Schedule F_bcrypt_expandstate
      (expand_argv
         (naive_expand B (key_buffer password) (unat key_len) csalt (unat (0 :: ulong)) state)
         csalt password key_len ?rounds minor (word_of_nat logr) 25 0)"
    using res by (simp add: naive_expand_def)
  from run_nif_trace [OF lt res, of B sched tune 0]
  obtain trace where
    t: "run_nif B sched tune 0 (bcrypt B heap argv) = Some trace"
    and l: "last trace = bcrypt_fini B
             (fini_argv
                (naive_expand B (key_buffer password) (unat key_len) csalt
                   (unat ?r32 - unat (0 :: ulong)) state)
                csalt minor (word_of_nat logr))"
    and so: "sorted_wrt (<) (start_indices trace)"
    by blast
  from run_nif_calls [OF lt res0, of sched tune 0] t
  have sh: "run_counts_rounds B csalt password key_len ?rounds minor (word_of_nat logr) state trace"
    and call: "\<forall>i a. i < length trace \<and> result (trace ! i) = Schedule F_bcrypt_expandstate a \<longrightarrow>
        Suc i < length trace \<and>
        bcrypt_expandstate B (sched i) (retune (tune i) a) = Some (trace ! Suc i) \<and>
        (\<exists>ks. expandstate_indices B (sched i) (retune (tune i) a) = Some ks \<and>
           ks \<noteq> [] \<and> sorted_wrt (<) (ulong_arg a 8 # map unat ks) \<and>
           unat (last ks) \<le> unat ?rounds \<and>
           (finalizing (trace ! Suc i) \<longleftrightarrow> unat (last ks) = unat ?rounds) \<and>
           (unat (last ks) < unat ?rounds \<longrightarrow>
              start_index_of (trace ! Suc i) = Some (unat (last ks))))"
    unfolding RU by auto
  obtain rs where "trace = bcrypt B heap argv # rs" using run_nif_hd [OF t] by blast
  then have h: "hd trace = bcrypt B heap argv" by simp
  obtain s rel where "last trace = \<lparr>result = Return_string s, released = rel\<rparr>"
    unfolding l using bcrypt_fini_returns by blast
  then have ret: "\<exists>s. result (last trace) = Return_string s" by simp
  have t': "bcrypt_nif B heap sched tune argv = Some trace"
    using t by (simp add: bcrypt_nif_def)
  have dw: "\<exists>st' k'. expand_do_while B st (key_buffer password) (unat key_len) csalt k end'
                     = Some (st', k') \<and> unat k < unat k' \<and> unat k' \<le> unat ?rounds"
    if "unat k < unat ?rounds" "unat end' \<le> unat ?rounds" for st and k :: u32 and end'
  proof -
    have a: "unat k < unat ?r32" using that(1) unfolding R U .
    have b: "end' \<le> ucast ?r32" using that(2) unfolding U by (simp add: ucast_le_iff R)
    from expand_do_while_result [OF refl a b, of B st "key_buffer password" "unat key_len" csalt]
    obtain k' where
      "expand_do_while B st (key_buffer password) (unat key_len) csalt k end' =
         Some ((expand_round B (key_buffer password) (unat key_len) csalt ^^ (unat k' - unat k)) st, k')"
      and "unat k' = max (unat k + 1) (unat end')"
      by blast
    then show ?thesis using that by auto
  qed
  from sa pos le RU t' h sh so ret call dw show ?thesis by blast
qed


text \<open>
  The run for the password \<open>abc\<close> with 32 rounds, under a scheduler that asks every call to
  yield: the first call runs one slice, from index 0 to index 25, and schedules itself
  again with \<open>start_index\<close> 25.
\<close>

theorem index_invariant_witness:
  "\<exists>trace st' k'.
     bcrypt_nif demo_blf demo_heap (\<lambda>n. demo_sched True) (\<lambda>n m. m)
      [ErlString (map byte_of_char ''abc''),
       ErlString (map byte_of_char ''$2b$05$abcdefghijklmnopqrstuu'')] = Some trace \<and>
     sorted_wrt (<) (start_indices trace) \<and>
     (\<exists>s. result (last trace) = Return_string s) \<and>
     1 < length trace \<and>
     expandstate_indices demo_blf (demo_sched True)
       (expand_argv [231, 231, 231, 231]
          [113, 215, 159, 130, 24, 163, 146, 89, 167, 162, 154, 171, 178, 219, 175, 195]
          (map byte_of_char ''abc'') 4 32 98 5 25 0) = Some [25] \<and>
     \<not> finalizing (trace ! 1) \<and>
     start_index_of (trace ! 1) = Some 25 \<and>
     expand_do_while demo_blf [1, 2, 3, 4] (key_buffer (map byte_of_char ''abc'')) 4
       [113, 215, 159, 130, 24, 163, 146, 89, 167, 162, 154, 171, 178, 219, 175, 195] 3 7
       = Some (st', k') \<and>
     unat (3 :: u32) < unat k' \<and> unat k' \<le> 32"
proof -
  let ?argv = "[ErlString (map byte_of_char ''abc''),
       ErlString (map byte_of_char ''$2b$05$abcdefghijklmnopqrstuu'')]"
  let ?salt = "[113, 215, 159, 130, 24, 163, 146, 89, 167, 162, 154, 171, 178, 219, 175, 195] :: u8 list"
  let ?a0 = "expand_argv [231, 231, 231, 231] ?salt (map byte_of_char ''abc'') 4 32 98 5 25 0"
  have b: "bcrypt demo_blf demo_heap ?argv =
      \<lparr>result = Schedule F_bcrypt_expandstate ?a0, released = []\<rparr>"
    by code_simp
  have ok: "result (bcrypt demo_blf demo_heap ?argv) \<noteq> Badarg"
    unfolding b by simp
  have ks: "expandstate_indices demo_blf (demo_sched True) ?a0 = Some [25]"
  proof -
    define key where "key = key_buffer (map byte_of_char ''abc'')"
    define st :: "u8 list" where "st = [231, 231, 231, 231]"
    define salt where "salt = ?salt"
    have "unat (0 :: u32) < unat (32 :: u32)" "(25 :: ulong) \<le> ucast (32 :: u32)" by simp_all
    from expand_do_while_result [OF refl this, of demo_blf st key 4 salt]
    obtain k' where
      d: "expand_do_while demo_blf st key 4 salt 0 25 =
          Some ((expand_round demo_blf key 4 salt ^^ (unat k' - unat (0 :: u32))) st, k')"
      and k: "unat k' = max (unat (0 :: u32) + 1) (unat (25 :: ulong))"
      by blast
    have "unat k' = unat (25 :: u32)" using k by simp
    then have k25: "k' = 25" by (simp only: word_unat_eq_iff)
    have "slice_indices demo_blf (demo_sched True) key 4 salt 32 25 st 0 0 25 0 = Some [25]"
      by (subst slice_indices.simps)
        (simp add: d k25 Let_def demo_sched_def split: prod.splits)
    then show ?thesis
      unfolding key_def st_def salt_def by (simp add: expandstate_indices_expand_argv)
  qed
  from index_invariant [OF ok, of "\<lambda>n. demo_sched True" "\<lambda>n m. m"]
  obtain state csalt password key_len rounds minor logr trace where
    e: "scheduled_argv (bcrypt demo_blf demo_heap ?argv)
       = expand_argv state csalt password key_len rounds minor logr 25 0"
    and t: "bcrypt_nif demo_blf demo_heap (\<lambda>n. demo_sched True) (\<lambda>n m. m) ?argv = Some trace"
    and h: "hd trace = bcrypt demo_blf demo_heap ?argv"
    and sh: "run_counts_rounds demo_blf csalt password key_len rounds minor logr state trace"
    and so: "sorted_wrt (<) (start_indices trace)"
    and ret: "\<exists>s. result (last trace) = Return_string s"
    and call: "\<forall>i a. i < length trace \<and> result (trace ! i) = Schedule F_bcrypt_expandstate a \<longrightarrow>
        Suc i < length trace \<and>
        bcrypt_expandstate demo_blf (demo_sched True) (retune (\<lambda>m. m) a) = Some (trace ! Suc i) \<and>
        (\<exists>ks. expandstate_indices demo_blf (demo_sched True) (retune (\<lambda>m. m) a) = Some ks \<and>
           ks \<noteq> [] \<and> sorted_wrt (<) (ulong_arg a 8 # map unat ks) \<and>
           unat (last ks) \<le> unat rounds \<and>
           (finalizing (trace ! Suc i) \<longleftrightarrow> unat (last ks) = unat rounds) \<and>
           (unat (last ks) < unat rounds \<longrightarrow>
              start_index_of (trace ! Suc i) = Some (unat (last ks))))"
    and dw: "\<forall>st (k::u32) end'. unat k < unat rounds \<and> unat end' \<le> unat rounds \<longrightarrow>
        (\<exists>st' k'. expand_do_while demo_blf st (key_buffer password) (unat key_len) csalt k end'
                     = Some (st', k') \<and>
                   unat k < unat k' \<and> unat k' \<le> unat rounds)"
    by blast
  have v: "password = map byte_of_char ''abc''" "key_len = 4" "rounds = 32" "csalt = ?salt"
    using e unfolding b by (simp_all add: expand_argv_def scheduled_argv_def)
  have ne: "trace \<noteq> []" using sh by (cases trace) simp_all
  then have t0: "trace ! 0 = bcrypt demo_blf demo_heap ?argv" using h by (simp add: hd_conv_nth)
  have "0 < length trace \<and> result (trace ! 0) = Schedule F_bcrypt_expandstate ?a0"
    using ne unfolding t0 b by simp
  with call have c: "Suc 0 < length trace \<and>
        (\<exists>ks. expandstate_indices demo_blf (demo_sched True) (retune (\<lambda>m. m) ?a0) = Some ks \<and>
           (finalizing (trace ! Suc 0) \<longleftrightarrow> unat (last ks) = unat rounds) \<and>
           (unat (last ks) < unat rounds \<longrightarrow>
              start_index_of (trace ! Suc 0) = Some (unat (last ks))))"
    by blast
  have rt: "retune (\<lambda>m. m) ?a0 = ?a0" by (simp add: retune_def expand_argv_def)
  have c1: "1 < length trace" "\<not> finalizing (trace ! 1)" "start_index_of (trace ! 1) = Some 25"
    using c unfolding rt ks v by simp_all
  have "unat (3 :: u32) < unat rounds \<and> unat (7 :: ulong) \<le> unat rounds"
    unfolding v by simp
  with dw obtain st' k' where
    "expand_do_while demo_blf [1, 2, 3, 4] (key_buffer password) (unat key_len) csalt 3 7
       = Some (st', k')" "unat (3 :: u32) < unat k'" "unat k' \<le> unat rounds"
    by blast
  then have "expand_do_while demo_blf [1, 2, 3, 4] (key_buffer (map byte_of_char ''abc'')) 4
       ?salt 3 7 = Some (st', k')" "unat (3 :: u32) < unat k'" "unat k' \<le> 32"
    unfolding v by simp_all
  with t so ret c1 ks show ?thesis by blast
qed


section \<open>Properties of the erasure\<close>

lemma secure_bzero_loop_zeroes:
  "ptr + len \<le> length buf \<Longrightarrow>
   secure_bzero_loop buf ptr len = take ptr buf @ replicate len 0 @ drop (ptr + len) buf"
proof (induction len arbitrary: buf ptr)
  case 0
  then show ?case by simp
next
  case (Suc len)
  have "secure_bzero_loop buf ptr (Suc len) = secure_bzero_loop (buf[ptr := 0]) (ptr + 1) len"
    by simp
  also have "\<dots> = take (ptr + 1) (buf[ptr := 0]) @ replicate len 0 @ drop (ptr + 1 + len) (buf[ptr := 0])"
    using Suc.prems by (intro Suc.IH) simp
  also have "take (ptr + 1) (buf[ptr := 0]) = take ptr buf @ [0]"
    using Suc.prems by (simp add: take_Suc_conv_app_nth)
  also have "drop (ptr + 1 + len) (buf[ptr := 0]) = drop (ptr + Suc len) buf"
    by simp
  finally show ?case by (simp add: replicate_app_Cons_same)
qed

lemma secure_bzero_all: "secure_bzero buf (length buf) = replicate (length buf) 0"
  by (simp add: secure_bzero_def secure_bzero_loop_zeroes)

lemma bcrypt_fini_released:
  "released (bcrypt_fini B (fini_argv state csalt minor logr))
     = [replicate (length state) 0, replicate (length csalt) 0]"
  by (simp add: bcrypt_fini_def fini_argv_def enif_inspect_binary_def enif_get_ulong_def Let_def
      secure_bzero_all)


text \<open>
  Claim C3, evaluated. The claim that every buffer is erased before its release on every
  exit path fails on the path \<^verbatim>\<open>inval_release_csalt\<close> of \<^verbatim>\<open>bcrypt\<close>: for a salt whose
  21st character is outside the alphabet, the binary is released holding the 15 bytes
  decoded so far. The successful path of \<^verbatim>\<open>bcrypt_fini\<close> releases both binaries zeroed.
\<close>

theorem bcrypt_error_path_not_erased:
  "bcrypt demo_blf demo_heap
     [ErlString (map byte_of_char ''abc''),
      ErlString (map byte_of_char ''$2b$04$abcdefghijklmnopqrst!u'')]
   = \<lparr>result = Badarg,
      released = [[113, 215, 159, 130, 24, 163, 146, 89, 167, 162, 154, 171, 178, 219, 175, 0]]\<rparr> \<and>
   released (bcrypt_fini demo_blf (fini_argv [1, 2, 3, 4] (replicate 16 7) 98 4))
   = [[0, 0, 0, 0], replicate 16 0]"
proof -
  have "bcrypt demo_blf demo_heap
     [ErlString (map byte_of_char ''abc''),
      ErlString (map byte_of_char ''$2b$04$abcdefghijklmnopqrst!u'')]
   = \<lparr>result = Badarg,
      released = [[113, 215, 159, 130, 24, 163, 146, 89, 167, 162, 154, 171, 178, 219, 175, 0]]\<rparr>"
    by code_simp
  moreover have "released (bcrypt_fini demo_blf (fini_argv [1, 2, 3, 4] (replicate 16 7) 98 4))
   = [[0, 0, 0, 0], replicate 16 0]"
    using bcrypt_fini_released [of demo_blf "[1, 2, 3, 4]" "replicate 16 7" 98 4] by simp
  ultimately show ?thesis by (rule conjI)
qed

text \<open>So the buffer this call releases is not the zeroed buffer.\<close>

theorem bcrypt_error_path_not_erased_witness:
  "released (bcrypt demo_blf demo_heap
     [ErlString (map byte_of_char ''abc''),
      ErlString (map byte_of_char ''$2b$04$abcdefghijklmnopqrst!u'')])
   \<noteq> [[0, 0, 0, 0, 0, 0, 0, 0, 0, 0, 0, 0, 0, 0, 0, 0]]"
proof -
  note e = bcrypt_error_path_not_erased [THEN conjunct1]
  show ?thesis unfolding e by simp
qed

end
